theory Spec2Isabelle
  imports Main "HOL-Library.Word"
begin

unbundle bit_operations_syntax

text \<open>
  The pseudorandom generator of \<^verbatim>\<open>sgx-falcon/frng.c\<close>: seeding from the platform
  (\<^verbatim>\<open>falcon_get_seed\<close>), initialisation from a SHAKE context (\<^verbatim>\<open>falcon_prng_init\<close>), the
  ChaCha20 refill (\<^verbatim>\<open>refill_chacha20\<close>, \<^verbatim>\<open>falcon_prng_refill\<close>) and the extraction of bytes
  (\<^verbatim>\<open>falcon_prng_get_bytes\<close>). Each C function is a HOL function of the same name that takes
  the build configuration and the instance and returns the new instance; byte arrays are
  lists of bytes, and reads through word pointers decode them in the host's byte order.
\<close>

section \<open>Machine types and byte order\<close>

type_synonym byte = "8 word"
type_synonym u32 = "32 word"
type_synonym u64 = "64 word"

text \<open>
  The macros that select code in \<^verbatim>\<open>frng.c\<close>, and the byte order of the host the code
  runs on. \<^verbatim>\<open>USE_URANDOM\<close> and \<^verbatim>\<open>USE_WIN32_RAND\<close> are only tested with \<^verbatim>\<open>#if\<close>: the field
  says whether the macro has a non-zero value. \<^verbatim>\<open>USE_SGX\<close> is tested with \<^verbatim>\<open>#if\<close> (line 208)
  and with \<^verbatim>\<open>#ifndef\<close> (line 362), which differ for a build with \<^verbatim>\<open>-DUSE_SGX=0\<close>: the field is
  \<open>None\<close> when the macro is not defined and its value otherwise. \<^verbatim>\<open>FALCON_LE_U\<close> comes from
  \<^verbatim>\<open>internal.h\<close>, which is not among the sources; it is a parameter here. \<^verbatim>\<open>NDEBUG\<close> is the
  macro of \<^verbatim>\<open>assert.h\<close> that turns \<^verbatim>\<open>assert\<close> into nothing.
\<close>

record build =
  USE_URANDOM :: bool
  USE_WIN32_RAND :: bool
  USE_SGX :: "int option"
  NDEBUG :: bool
  FALCON_LE_U :: bool
  big_endian :: bool

text \<open>\<^verbatim>\<open>#if M\<close>: the macro is defined with a non-zero value.\<close>

definition macro_true :: "int option \<Rightarrow> bool" where
  "macro_true m = (case m of None \<Rightarrow> False | Some v \<Rightarrow> v \<noteq> 0)"

text \<open>\<^verbatim>\<open>FALCON_LE_U\<close> may only be set on a little-endian host.\<close>

definition platform_ok :: "build \<Rightarrow> bool" where
  "platform_ok cfg = (FALCON_LE_U cfg \<longrightarrow> \<not> big_endian cfg)"

text \<open>Little-endian decoding and encoding of 32-bit and 64-bit values (lines 333-336, 297-300).\<close>

definition dec32le :: "byte list \<Rightarrow> u32" where
  "dec32le bs = ucast (bs ! 0) OR push_bit 8 (ucast (bs ! 1))
     OR push_bit 16 (ucast (bs ! 2)) OR push_bit 24 (ucast (bs ! 3))"

definition enc32le :: "u32 \<Rightarrow> byte list" where
  "enc32le w = [ucast w, ucast (drop_bit 8 w), ucast (drop_bit 16 w), ucast (drop_bit 24 w)]"

definition dec64le :: "byte list \<Rightarrow> u64" where
  "dec64le bs = ucast (dec32le (take 4 bs)) OR push_bit 32 (ucast (dec32le (take 4 (drop 4 bs))))"

definition enc64le :: "u64 \<Rightarrow> byte list" where
  "enc64le w = enc32le (ucast w) @ enc32le (ucast (drop_bit 32 w))"

text \<open>
  Memory accesses through \<^verbatim>\<open>uint32_t *\<close> and \<^verbatim>\<open>uint64_t *\<close> casts of a byte array use the
  host's byte order; \<open>be\<close> is \<^const>\<open>big_endian\<close> of the platform.
\<close>

definition native :: "bool \<Rightarrow> byte list \<Rightarrow> byte list" where
  "native be bs = (if be then rev bs else bs)"

definition memcpy_at :: "byte list \<Rightarrow> nat \<Rightarrow> byte list \<Rightarrow> byte list" where
  "memcpy_at dst off src = take off dst @ src @ drop (off + length src) dst"

definition load32 :: "bool \<Rightarrow> byte list \<Rightarrow> nat \<Rightarrow> u32" where
  "load32 be d off = dec32le (native be (take 4 (drop off d)))"

definition store32 :: "bool \<Rightarrow> byte list \<Rightarrow> nat \<Rightarrow> u32 \<Rightarrow> byte list" where
  "store32 be d off w = memcpy_at d off (native be (enc32le w))"

definition load64 :: "bool \<Rightarrow> byte list \<Rightarrow> nat \<Rightarrow> u64" where
  "load64 be d off = dec64le (native be (take 8 (drop off d)))"

definition store64 :: "bool \<Rightarrow> byte list \<Rightarrow> nat \<Rightarrow> u64 \<Rightarrow> byte list" where
  "store64 be d off w = memcpy_at d off (native be (enc64le w))"

section \<open>The generator instance\<close>

text \<open>
  Modelled from the spec: the declaration of the struct \<^verbatim>\<open>prng\<close> is in \<^verbatim>\<open>internal.h\<close>, which
  is not among the sources. Section 3 of the specification gives an output buffer with a
  cursor, a state area (key, nonce, counter) and a variant tag; the code names the fields.
  The cursor is a \<^verbatim>\<open>size_t\<close>, 64 bits wide on the enclave's target.
\<close>

record prng =
  buf_d :: "byte list"
  ptr :: u64
  state_d :: "byte list"
  type :: int

text \<open>
  Modelled from the spec: \<^verbatim>\<open>sizeof p->buf.d\<close> depends on the same absent declaration;
  section 3 of the specification fixes the buffer at 512 bytes (eight blocks).
\<close>

definition sizeof_buf :: nat where
  "sizeof_buf = 512"

text \<open>
  Modelled from the spec: the constant \<^verbatim>\<open>PRNG_CHACHA20\<close> is defined in \<^verbatim>\<open>internal.h\<close> as well.
  Section 4.2 of the specification distinguishes the one supported variant from the
  value "default/unspecified", which is 0 in the code.
\<close>

definition PRNG_CHACHA20 :: int where
  "PRNG_CHACHA20 = 1"

text \<open>An instance with a buffer of that size and the 56 bytes of state (section 3).\<close>

definition prng_ok :: "prng \<Rightarrow> bool" where
  "prng_ok p = (length (buf_d p) = sizeof_buf \<and> length (state_d p) = 56)"

datatype error = Abort | Bad_read

section \<open>\<^verbatim>\<open>refill_chacha20\<close>\<close>

definition CW :: "u32 list" where
  "CW = [0x61707865, 0x3320646e, 0x79622d32, 0x6b206574]"

text \<open>The statements of the macro \<^verbatim>\<open>QROUND\<close>, each an update of the array \<^verbatim>\<open>state\<close>.\<close>

definition add_at :: "nat \<Rightarrow> nat \<Rightarrow> u32 list \<Rightarrow> u32 list" where
  "add_at a b st = st[a := st ! a + st ! b]"

definition xor_at :: "nat \<Rightarrow> nat \<Rightarrow> u32 list \<Rightarrow> u32 list" where
  "xor_at a b st = st[a := st ! a XOR st ! b]"

definition shl_or_shr_at :: "nat \<Rightarrow> nat \<Rightarrow> nat \<Rightarrow> u32 list \<Rightarrow> u32 list" where
  "shl_or_shr_at a l r st = st[a := push_bit l (st ! a) OR drop_bit r (st ! a)]"

definition run :: "('s \<Rightarrow> 's) list \<Rightarrow> 's \<Rightarrow> 's" where
  "run stmts s = fold (\<lambda>stmt x. stmt x) stmts s"

definition QROUND :: "nat \<Rightarrow> nat \<Rightarrow> nat \<Rightarrow> nat \<Rightarrow> u32 list \<Rightarrow> u32 list" where
  "QROUND a b c d = run
    [add_at a b, xor_at d a, shl_or_shr_at d 16 16,
     add_at c d, xor_at b c, shl_or_shr_at b 12 20,
     add_at a b, xor_at d a, shl_or_shr_at d 8 24,
     add_at c d, xor_at b c, shl_or_shr_at b 7 25]"

text \<open>The body of the loop over \<^verbatim>\<open>i\<close> (lines 268-275).\<close>

definition rounds_body :: "u32 list \<Rightarrow> u32 list" where
  "rounds_body = run
    [QROUND 0 4 8 12, QROUND 1 5 9 13, QROUND 2 6 10 14, QROUND 3 7 11 15,
     QROUND 0 5 10 15, QROUND 1 6 11 12, QROUND 2 7 8 13, QROUND 3 4 9 14]"

definition xor_val_at :: "nat \<Rightarrow> u32 \<Rightarrow> u32 list \<Rightarrow> u32 list" where
  "xor_val_at a v st = st[a := st ! a XOR v]"

definition add_val_at :: "nat \<Rightarrow> u32 \<Rightarrow> u32 list \<Rightarrow> u32 list" where
  "add_val_at a v st = st[a := st ! a + v]"

text \<open>Lines 247-250: the working array of one block.\<close>

definition load_state :: "bool \<Rightarrow> byte list \<Rightarrow> u64 \<Rightarrow> u32 list" where
  "load_state be sd cc = run
     [xor_val_at 14 (ucast cc), xor_val_at 15 (ucast (drop_bit 32 cc))]
     (CW @ map (\<lambda>i. load32 be sd (4 * i)) [0..<12])"

text \<open>Lines 281-290: the input words are added back.\<close>

definition add_back :: "bool \<Rightarrow> byte list \<Rightarrow> u64 \<Rightarrow> u32 list \<Rightarrow> u32 list" where
  "add_back be sd cc = run
     [fold (\<lambda>v. add_val_at v (CW ! v)) [0..<4],
      fold (\<lambda>v. add_val_at v (load32 be sd (4 * (v - 4)))) [4..<14],
      add_val_at 14 (load32 be sd (4 * 10) XOR ucast cc),
      add_val_at 15 (load32 be sd (4 * 11) XOR ucast (drop_bit 32 cc))]"

text \<open>
  Lines 293-302: the block is written at offset \<open>u\<close> of the buffer, by \<^verbatim>\<open>memcpy\<close> of the
  array under \<^verbatim>\<open>FALCON_LE_U\<close>, byte by byte otherwise.
\<close>

definition store_word_le :: "nat \<Rightarrow> u32 list \<Rightarrow> nat \<Rightarrow> byte list \<Rightarrow> byte list" where
  "store_word_le u st v buf =
     buf[u + 4 * v + 0 := ucast (st ! v),
         u + 4 * v + 1 := ucast (drop_bit 8 (st ! v)),
         u + 4 * v + 2 := ucast (drop_bit 16 (st ! v)),
         u + 4 * v + 3 := ucast (drop_bit 24 (st ! v))]"

definition store_block :: "build \<Rightarrow> nat \<Rightarrow> u32 list \<Rightarrow> byte list \<Rightarrow> byte list" where
  "store_block cfg u st buf =
     (if FALCON_LE_U cfg
      then memcpy_at buf u (concat (map (\<lambda>w. native (big_endian cfg) (enc32le w)) st))
      else fold (store_word_le u st) [0..<16] buf)"

definition block_words :: "bool \<Rightarrow> byte list \<Rightarrow> u64 \<Rightarrow> u32 list" where
  "block_words be sd cc = add_back be sd cc ((rounds_body ^^ 10) (load_state be sd cc))"

text \<open>The loop over \<open>u\<close> (line 242), with the local counter \<open>cc\<close>.\<close>

function refill_blocks :: "build \<Rightarrow> byte list \<Rightarrow> nat \<Rightarrow> u64 \<Rightarrow> byte list \<Rightarrow> u64 \<times> byte list" where
  "refill_blocks cfg sd u cc buf =
     (if u < sizeof_buf
      then refill_blocks cfg sd (u + 64) (cc + 1)
             (store_block cfg u (block_words (big_endian cfg) sd cc) buf)
      else (cc, buf))"
  by pat_completeness auto
termination
  by (relation "measure (\<lambda>(cfg, sd, u, cc, buf). sizeof_buf - u)") auto

declare refill_blocks.simps [simp del]

definition refill_chacha20 :: "build \<Rightarrow> prng \<Rightarrow> prng" where
  "refill_chacha20 cfg p =
     (case refill_blocks cfg (state_d p) 0 (load64 (big_endian cfg) (state_d p) 48) (buf_d p) of
        (cc, buf) \<Rightarrow> p\<lparr>buf_d := buf, state_d := store64 (big_endian cfg) (state_d p) 48 cc\<rparr>)"

section \<open>\<^verbatim>\<open>falcon_prng_refill\<close> and \<^verbatim>\<open>falcon_prng_get_bytes\<close>\<close>

text \<open>
  \<^verbatim>\<open>assert(0)\<close> ends the process; it is compiled only when \<^verbatim>\<open>USE_SGX\<close> is not defined
  (\<^verbatim>\<open>#ifndef\<close>), and has an effect only without \<^verbatim>\<open>NDEBUG\<close>.
\<close>

definition falcon_prng_refill :: "build \<Rightarrow> prng \<Rightarrow> error + prng" where
  "falcon_prng_refill cfg p =
     (if type p = PRNG_CHACHA20 then Inr ((refill_chacha20 cfg p)\<lparr>ptr := 0\<rparr>)
      else if USE_SGX cfg = None \<and> \<not> NDEBUG cfg then Inl Abort
      else Inr (p\<lparr>ptr := 0\<rparr>))"

lemma falcon_prng_refill_ptr: "falcon_prng_refill cfg p = Inr p' \<Longrightarrow> ptr p' = 0"
  by (auto simp: falcon_prng_refill_def split: if_splits)

text \<open>
  The loop of \<^verbatim>\<open>falcon_prng_get_bytes\<close>; \<open>out\<close> is what has been written to \<^verbatim>\<open>dst\<close> so
  far. The \<^verbatim>\<open>memcpy\<close> of line 384 reads \<open>clen\<close> bytes from the start of \<^verbatim>\<open>p->buf.d\<close>; a
  read of more than the buffer holds has no defined result.
\<close>

function get_bytes_loop :: "build \<Rightarrow> prng \<Rightarrow> byte list \<Rightarrow> u64 \<Rightarrow> error + (prng \<times> byte list)" where
  "get_bytes_loop cfg p out len =
     (if len > 0 then
        (let clen0 = word_of_nat sizeof_buf - ptr p;
             clen = (if clen0 > len then len else clen0)
         in if unat clen > sizeof_buf then Inl Bad_read
            else
              (let out' = out @ take (unat clen) (buf_d p);
                   len' = len - clen;
                   p' = p\<lparr>ptr := ptr p + clen\<rparr>
               in if ptr p' = word_of_nat sizeof_buf
                  then (case falcon_prng_refill cfg p' of
                          Inl e \<Rightarrow> Inl e
                        | Inr p'' \<Rightarrow> get_bytes_loop cfg p'' out' len')
                  else get_bytes_loop cfg p' out' len'))
      else Inr (p, out))"
  by pat_completeness auto

termination
  apply (relation "measures [\<lambda>(cfg, p, out, len). unat len,
           \<lambda>(cfg, p, out, len). if ptr p = word_of_nat sizeof_buf then 1 else 0]")
    apply simp
   apply (auto simp: sizeof_buf_def dest!: falcon_prng_refill_ptr split: if_splits)
    apply unat_arith
   apply unat_arith
  apply unat_arith
  done

declare get_bytes_loop.simps [simp del]

definition falcon_prng_get_bytes :: "build \<Rightarrow> prng \<Rightarrow> u64 \<Rightarrow> error + (prng \<times> byte list)" where
  "falcon_prng_get_bytes cfg p len = get_bytes_loop cfg p [] len"

section \<open>\<^verbatim>\<open>falcon_prng_init\<close>\<close>

text \<open>
  Modelled from the spec: \<^verbatim>\<open>shake_context\<close> and \<^verbatim>\<open>shake_extract\<close> belong to the hash
  implementation, which is not among the sources. Section 6 of the specification calls
  the context an already seeded extendable-output hash of which only "extract N bytes"
  is used. The context is the stream of bytes it has yet to produce; an extraction
  takes the next \<open>n\<close> of them.
\<close>

type_synonym shake_context = "nat \<Rightarrow> byte"

definition shake_extract :: "shake_context \<Rightarrow> nat \<Rightarrow> byte list \<times> shake_context" where
  "shake_extract src n = (map src [0..<n], \<lambda>i. src (n + i))"

text \<open>Lines 325-341: the branch without \<^verbatim>\<open>FALCON_LE_U\<close>, after the extraction into \<open>tmp\<close>.\<close>

definition store_tmp_word :: "bool \<Rightarrow> byte list \<Rightarrow> nat \<Rightarrow> byte list \<Rightarrow> byte list" where
  "store_tmp_word be tmp i sd =
     (let w = ucast (tmp ! (4 * i + 0)) OR push_bit 8 (ucast (tmp ! (4 * i + 1)))
              OR push_bit 16 (ucast (tmp ! (4 * i + 2))) OR push_bit 24 (ucast (tmp ! (4 * i + 3)))
      in store32 be sd (4 * i) w)"

definition normalize_state :: "bool \<Rightarrow> byte list \<Rightarrow> byte list \<Rightarrow> byte list" where
  "normalize_state be tmp sd =
     (let sd1 = fold (store_tmp_word be tmp) [0..<14] sd;
          tl = (ucast (load32 be sd1 48) :: u64);
          th = (ucast (load32 be sd1 52) :: u64)
      in store64 be sd1 48 (tl + push_bit 32 th))"

text \<open>
  The result is the returned \<^verbatim>\<open>int\<close>, the instance and the hash context. On the
  \<^verbatim>\<open>default\<close> branch nothing has been touched.
\<close>

definition falcon_prng_init ::
    "build \<Rightarrow> prng \<Rightarrow> shake_context \<Rightarrow> int \<Rightarrow> error + (int \<times> prng \<times> shake_context)" where
  "falcon_prng_init cfg p src type0 =
     (let type1 = (if type0 = 0 then PRNG_CHACHA20 else type0)
      in if type1 = PRNG_CHACHA20 then
           (case shake_extract src 56 of (bytes, src') \<Rightarrow>
              (let sd = (if FALCON_LE_U cfg then memcpy_at (state_d p) 0 bytes
                         else normalize_state (big_endian cfg) bytes (state_d p));
                   p1 = p\<lparr>state_d := sd, type := type1\<rparr>
               in case falcon_prng_refill cfg p1 of
                    Inl e \<Rightarrow> Inl e
                  | Inr p2 \<Rightarrow> Inr (type1, p2, src')))
         else Inr (0, p, src))"

text \<open>The number of bytes that one pass of the loop copies (lines 380-383).\<close>

definition chunk_len :: "prng \<Rightarrow> u64 \<Rightarrow> u64" where
  "chunk_len p len = (if word_of_nat sizeof_buf - ptr p > len then len
                      else word_of_nat sizeof_buf - ptr p)"


section \<open>\<^verbatim>\<open>falcon_get_seed\<close>\<close>

text \<open>
  Modelled from the spec: the entropy sources are services of the platform (section 6 of
  the specification: each fills a buffer of a given length and reports success or
  failure). The operating system is what the seeding code can observe of it: whether
  \<^verbatim>\<open>/dev/urandom\<close> opens, the outcome of the \<open>k\<close>-th \<^verbatim>\<open>read\<close> on it, and what \<^verbatim>\<open>CryptGenRandom\<close>
  (after \<^verbatim>\<open>CryptAcquireContext\<close>) and \<^verbatim>\<open>sgx_read_rand\<close> do for a given length: \<open>None\<close> for a
  failure, the bytes written otherwise. A \<^verbatim>\<open>read\<close> that offers \<open>bs\<close> returns at most the
  length asked for.
\<close>

datatype read_result = Read_bytes "byte list" | Read_eintr | Read_error

record os =
  open_ok :: bool
  reads :: "nat \<Rightarrow> read_result"
  win32_rand :: "nat \<Rightarrow> byte list option"
  sgx_rand :: "nat \<Rightarrow> byte list option"

text \<open>
  The loop of \<^verbatim>\<open>urandom_get_seed\<close> (lines 142-154), which ends only when \<^verbatim>\<open>read\<close> has
  delivered everything or has failed with an error other than \<^verbatim>\<open>EINTR\<close>. \<open>k\<close> counts the
  calls of \<^verbatim>\<open>read\<close>, \<open>off\<close> is the position of the pointer \<^verbatim>\<open>seed\<close> in the buffer. The result
  is the buffer, the remaining length and the number of calls made.
\<close>

partial_function (option) urandom_read_loop ::
    "(nat \<Rightarrow> read_result) \<Rightarrow> nat \<Rightarrow> byte list \<Rightarrow> nat \<Rightarrow> nat \<Rightarrow> (byte list \<times> nat \<times> nat) option" where
  "urandom_read_loop rd k buf off len =
     (if len > 0 then
        (case rd k of
           Read_eintr \<Rightarrow> urandom_read_loop rd (k + 1) buf off len
         | Read_error \<Rightarrow> Some (buf, len, k + 1)
         | Read_bytes bs \<Rightarrow>
             urandom_read_loop rd (k + 1) (memcpy_at buf off (take len bs))
               (off + length (take len bs)) (len - length (take len bs)))
      else Some (buf, len, k))"

text \<open>
  The three sources; the result is the returned \<^verbatim>\<open>int\<close> and the buffer. The length
  parameter of \<^verbatim>\<open>CryptGenRandom\<close> is a \<^verbatim>\<open>DWORD\<close>: line 174 passes \<^verbatim>\<open>len\<close> reduced to 32 bits.
  \<^verbatim>\<open>read\<close> and \<^verbatim>\<open>sgx_read_rand\<close> take a \<^verbatim>\<open>size_t\<close>.
\<close>

definition urandom_get_seed :: "os \<Rightarrow> byte list \<Rightarrow> nat \<Rightarrow> (int \<times> byte list) option" where
  "urandom_get_seed sys seed len =
     (if len = 0 then Some (1, seed)
      else if open_ok sys then
        (case urandom_read_loop (reads sys) 0 seed 0 len of
           None \<Rightarrow> None
         | Some (seed', len', k) \<Rightarrow> Some (if len' = 0 then 1 else 0, seed'))
      else Some (0, seed))"

definition win32_get_seed :: "os \<Rightarrow> byte list \<Rightarrow> nat \<Rightarrow> int \<times> byte list" where
  "win32_get_seed sys seed len =
     (case win32_rand sys (len mod 2 ^ 32) of
        Some bs \<Rightarrow> (1, memcpy_at seed 0 bs)
      | None \<Rightarrow> (0, seed))"

definition sgx_get_seed :: "os \<Rightarrow> byte list \<Rightarrow> nat \<Rightarrow> int \<times> byte list" where
  "sgx_get_seed sys seed len =
     (case sgx_rand sys len of
        Some bs \<Rightarrow> (1, memcpy_at seed 0 bs)
      | None \<Rightarrow> (0, seed))"

text \<open>
  \<^verbatim>\<open>falcon_get_seed\<close>: a source that is not compiled in contributes nothing. \<open>None\<close> is a
  call that does not return.
\<close>

definition falcon_get_seed :: "build \<Rightarrow> os \<Rightarrow> byte list \<Rightarrow> nat \<Rightarrow> (int \<times> byte list) option" where
  "falcon_get_seed cfg sys seed len =
     (case (if USE_URANDOM cfg then urandom_get_seed sys seed len else Some (0, seed)) of
        None \<Rightarrow> None
      | Some (r1, seed1) \<Rightarrow>
          if r1 \<noteq> 0 then Some (1, seed1)
          else
            (case (if USE_WIN32_RAND cfg then win32_get_seed sys seed1 len else (0, seed1)) of
               (r2, seed2) \<Rightarrow>
                 if r2 \<noteq> 0 then Some (1, seed2)
                 else
                   (case (if macro_true (USE_SGX cfg) then sgx_get_seed sys seed2 len
                          else (0, seed2)) of
                      (r3, seed3) \<Rightarrow>
                        if r3 \<noteq> 0 then Some (1, seed3) else Some (0, seed3))))"

text \<open>
  What a source has delivered, in the words of the specification. The device has handed
  out \<open>offered rd k n\<close> in the reads \<open>k, ..., k + n - 1\<close>; it delivers the full length within
  \<open>n\<close> reads when none of them fails and they hand out enough; it fails at read \<open>n\<close> when
  that is the first failing read and the reads before it have handed out too little.
\<close>

definition offered :: "(nat \<Rightarrow> read_result) \<Rightarrow> nat \<Rightarrow> nat \<Rightarrow> byte list" where
  "offered rd k n =
     concat (map (\<lambda>i. case rd i of Read_bytes bs \<Rightarrow> bs | _ \<Rightarrow> []) [k..<k + n])"

definition urandom_full :: "os \<Rightarrow> nat \<Rightarrow> nat \<Rightarrow> bool" where
  "urandom_full sys len n =
     (open_ok sys \<and> list_all (\<lambda>i. reads sys i \<noteq> Read_error) [0..<n]
      \<and> len \<le> length (offered (reads sys) 0 n))"

definition urandom_fails :: "os \<Rightarrow> nat \<Rightarrow> nat \<Rightarrow> bool" where
  "urandom_fails sys len n =
     (\<not> open_ok sys
      \<or> (reads sys n = Read_error \<and> list_all (\<lambda>i. reads sys i \<noteq> Read_error) [0..<n]
          \<and> length (offered (reads sys) 0 n) < len))"

text \<open>The first of the two other sources, in the order of the code, that succeeds.\<close>

definition later_source :: "build \<Rightarrow> os \<Rightarrow> nat \<Rightarrow> byte list option" where
  "later_source cfg sys len =
     (if USE_WIN32_RAND cfg \<and> win32_rand sys (len mod 2 ^ 32) \<noteq> None
      then win32_rand sys (len mod 2 ^ 32)
      else if macro_true (USE_SGX cfg) then sgx_rand sys len
      else None)"

text \<open>
  The contract of the two services: on success they have written as many bytes as they
  were asked for.
\<close>

definition services_ok :: "os \<Rightarrow> nat \<Rightarrow> bool" where
  "services_ok sys len =
     ((case win32_rand sys (len mod 2 ^ 32) of
         Some bs \<Rightarrow> length bs = len mod 2 ^ 32 | None \<Rightarrow> True)
      \<and> (case sgx_rand sys len of Some bs \<Rightarrow> length bs = len | None \<Rightarrow> True))"

section \<open>The state layout and the block function, as the specification words them\<close>

text \<open>
  The state area is key, nonce and counter (lines 219-220): eight and four 32-bit words
  and one 64-bit value, read in the host's byte order.
\<close>

definition key_words :: "build \<Rightarrow> prng \<Rightarrow> u32 list" where
  "key_words cfg p = map (\<lambda>i. load32 (big_endian cfg) (state_d p) (4 * i)) [0..<8]"

definition nonce_words :: "build \<Rightarrow> prng \<Rightarrow> u32 list" where
  "nonce_words cfg p = map (\<lambda>i. load32 (big_endian cfg) (state_d p) (32 + 4 * i)) [0..<4]"

definition counter :: "build \<Rightarrow> prng \<Rightarrow> u64" where
  "counter cfg p = load64 (big_endian cfg) (state_d p) 48"

text \<open>
  Section 4.3 of the specification: the add-rotate-XOR quarter round with rotations
  16, 12, 8, 7; a double round over the columns, then the diagonals; ten double rounds;
  the feed-forward of the input words; little-endian serialisation; eight blocks with
  consecutive counters.
\<close>

definition quarter_round :: "u32 \<times> u32 \<times> u32 \<times> u32 \<Rightarrow> u32 \<times> u32 \<times> u32 \<times> u32" where
  "quarter_round = (\<lambda>(a0, b0, c0, d0).
     let a1 = a0 + b0; d1 = word_rotl 16 (d0 XOR a1);
         c1 = c0 + d1; b1 = word_rotl 12 (b0 XOR c1);
         a2 = a1 + b1; d2 = word_rotl 8 (d1 XOR a2);
         c2 = c1 + d2; b2 = word_rotl 7 (b1 XOR c2)
     in (a2, b2, c2, d2))"

definition quarter_at :: "nat \<times> nat \<times> nat \<times> nat \<Rightarrow> u32 list \<Rightarrow> u32 list" where
  "quarter_at = (\<lambda>(i, j, k, l) x.
     case quarter_round (x ! i, x ! j, x ! k, x ! l) of
       (a, b, c, d) \<Rightarrow> x[i := a, j := b, k := c, l := d])"

definition columns :: "(nat \<times> nat \<times> nat \<times> nat) list" where
  "columns = [(0, 4, 8, 12), (1, 5, 9, 13), (2, 6, 10, 14), (3, 7, 11, 15)]"

definition diagonals :: "(nat \<times> nat \<times> nat \<times> nat) list" where
  "diagonals = [(0, 5, 10, 15), (1, 6, 11, 12), (2, 7, 8, 13), (3, 4, 9, 14)]"

definition double_round :: "u32 list \<Rightarrow> u32 list" where
  "double_round x = fold quarter_at diagonals (fold quarter_at columns x)"

definition spec_input :: "u32 list \<Rightarrow> u32 list \<Rightarrow> u64 \<Rightarrow> u32 list" where
  "spec_input key nonce cc =
     CW @ key @ [nonce ! 0, nonce ! 1, nonce ! 2 XOR ucast cc, nonce ! 3 XOR ucast (drop_bit 32 cc)]"

definition spec_block :: "u32 list \<Rightarrow> u32 list \<Rightarrow> u64 \<Rightarrow> byte list" where
  "spec_block key nonce cc =
     (let x = spec_input key nonce cc
      in concat (map enc32le (map2 (+) ((double_round ^^ 10) x) x)))"

definition spec_refill :: "u32 list \<Rightarrow> u32 list \<Rightarrow> u64 \<Rightarrow> byte list \<times> u64" where
  "spec_refill key nonce cc =
     (concat (map (\<lambda>i. spec_block key nonce (cc + word_of_nat i)) [0..<8]), cc + 8)"

text \<open>A byte string read as consecutive little-endian 32-bit words.\<close>

definition le_words :: "byte list \<Rightarrow> u32 list" where
  "le_words bs = map (\<lambda>i. dec32le (take 4 (drop (4 * i) bs))) [0..<length bs div 4]"

text \<open>
  Two instances, possibly on hosts of different byte order, hold the same generator when
  tag, key, nonce and counter agree as values; they are in step when, beyond that, buffer
  and cursor agree.
\<close>

definition same_state :: "build \<Rightarrow> prng \<Rightarrow> build \<Rightarrow> prng \<Rightarrow> bool" where
  "same_state cfg1 p1 cfg2 p2 =
     (type p1 = type p2 \<and> key_words cfg1 p1 = key_words cfg2 p2
      \<and> nonce_words cfg1 p1 = nonce_words cfg2 p2 \<and> counter cfg1 p1 = counter cfg2 p2)"

definition in_step :: "build \<Rightarrow> prng \<Rightarrow> build \<Rightarrow> prng \<Rightarrow> bool" where
  "in_step cfg1 p1 cfg2 p2 =
     (same_state cfg1 p1 cfg2 p2 \<and> buf_d p1 = buf_d p2 \<and> ptr p1 = ptr p2
      \<and> type p1 = PRNG_CHACHA20 \<and> prng_ok p1 \<and> prng_ok p2)"

section \<open>Sequences of calls and concrete inputs\<close>

text \<open>\<open>n\<close> refills in a row; the first failure ends the run.\<close>

fun refills :: "build \<Rightarrow> nat \<Rightarrow> prng \<Rightarrow> error + prng" where
  "refills cfg 0 p = Inr p"
| "refills cfg (Suc n) p =
     (case falcon_prng_refill cfg p of Inl e \<Rightarrow> Inl e | Inr p' \<Rightarrow> refills cfg n p')"

text \<open>
  Successive calls of \<^verbatim>\<open>falcon_prng_get_bytes\<close> with the given lengths; the result is the
  last instance and the concatenation of what the calls delivered.
\<close>

fun get_chunks :: "build \<Rightarrow> prng \<Rightarrow> u64 list \<Rightarrow> error + (prng \<times> byte list)" where
  "get_chunks cfg p [] = Inr (p, [])"
| "get_chunks cfg p (len # lens) =
     (case falcon_prng_get_bytes cfg p len of
        Inl e \<Rightarrow> Inl e
      | Inr (p', out) \<Rightarrow>
          (case get_chunks cfg p' lens of
             Inl e \<Rightarrow> Inl e
           | Inr (p'', outs) \<Rightarrow> Inr (p'', out @ outs)))"

text \<open>Initialisation with the default variant, then the calls.\<close>

definition output_of_seed :: "build \<Rightarrow> prng \<Rightarrow> shake_context \<Rightarrow> u64 list \<Rightarrow> error + byte list" where
  "output_of_seed cfg p src lens =
     (case falcon_prng_init cfg p src 0 of
        Inl e \<Rightarrow> Inl e
      | Inr (r, p', src') \<Rightarrow>
          (case get_chunks cfg p' lens of Inl e \<Rightarrow> Inl e | Inr (p'', out) \<Rightarrow> Inr out))"

text \<open>
  The enclave's build on a little-endian host, a portable build on a big-endian host,
  zero-filled memory for an instance, and a hash context that produces zero bytes.
\<close>

definition enclave_build :: build where
  "enclave_build = \<lparr>USE_URANDOM = False, USE_WIN32_RAND = False, USE_SGX = Some 1, NDEBUG = False,
     FALCON_LE_U = True, big_endian = False\<rparr>"

definition portable_build :: build where
  "portable_build = \<lparr>USE_URANDOM = True, USE_WIN32_RAND = False, USE_SGX = None, NDEBUG = False,
     FALCON_LE_U = False, big_endian = True\<rparr>"

definition blank :: prng where
  "blank = \<lparr>buf_d = replicate 512 0, ptr = 0, state_d = replicate 56 0, type = 0\<rparr>"

definition zero_src :: shake_context where
  "zero_src = (\<lambda>i. 0)"

text \<open>A hash context that produces the bytes 0, 1, 2, ...\<close>

definition counting_src :: shake_context where
  "counting_src = (\<lambda>i. word_of_nat i)"

text \<open>
  Two platforms for the seeding code. On the first the device opens; its reads hand out two
  bytes, are interrupted once, and hand out three more bytes. On the second the third
  read fails, and the enclave's generator serves every length but 0.
\<close>

definition patient_os :: os where
  "patient_os = \<lparr>open_ok = True,
     reads = (\<lambda>k. if k = 0 then Read_bytes [1, 2] else if k = 1 then Read_eintr
                  else Read_bytes [3, 4, 5]),
     win32_rand = (\<lambda>n. None), sgx_rand = (\<lambda>n. None)\<rparr>"

definition broken_os :: os where
  "broken_os = \<lparr>open_ok = True,
     reads = (\<lambda>k. if k = 0 then Read_bytes [1, 2] else if k = 1 then Read_eintr
                  else Read_error),
     win32_rand = (\<lambda>n. None),
     sgx_rand = (\<lambda>n. if n = 0 then None else Some (replicate n 0x5a))\<rparr>"

definition both_build :: build where
  "both_build = \<lparr>USE_URANDOM = True, USE_WIN32_RAND = False, USE_SGX = Some 1, NDEBUG = False,
     FALCON_LE_U = True, big_endian = False\<rparr>"

text \<open>
  A platform whose device opens but whose reads hand out nothing, without ever failing,
  while the enclave's generator would serve every length; and a Windows build with a
  service that writes as many bytes as it is asked for.
\<close>

definition stalled_os :: os where
  "stalled_os = \<lparr>open_ok = True, reads = (\<lambda>k. Read_bytes []),
     win32_rand = (\<lambda>n. None), sgx_rand = (\<lambda>n. Some (replicate n 0x5a))\<rparr>"

definition win32_build :: build where
  "win32_build = \<lparr>USE_URANDOM = False, USE_WIN32_RAND = True, USE_SGX = None, NDEBUG = False,
     FALCON_LE_U = True, big_endian = False\<rparr>"

definition win32_os :: os where
  "win32_os = \<lparr>open_ok = False, reads = (\<lambda>k. Read_error),
     win32_rand = (\<lambda>n. Some (replicate n 0x5a)), sgx_rand = (\<lambda>n. None)\<rparr>"

section \<open>The block function refines the specification's\<close>

lemma shl_or_shr_rotl:
  fixes x :: u32
  assumes "l + r = 32" "0 < l" "l < 32"
  shows "push_bit l x OR drop_bit r x = word_rotl l x"
proof (rule bit_word_eqI)
  fix n assume "n < LENGTH(32)"
  then have n: "n < 32" by simp
  have "n + 32 - l = n + r" using assms by arith
  then have rot: "bit (word_rotl l x) n = bit x ((n + r) mod 32)"
    using n assms by (simp add: bit_word_rotl_iff)
  show "bit (push_bit l x OR drop_bit r x) n = bit (word_rotl l x) n"
  proof (cases "l \<le> n")
    case True
    then have "(n + r) mod 32 = n - l" using n assms
      by (simp add: mod_if) arith
    moreover have "\<not> bit x (r + n)" using True n assms
      by (auto dest: bit_imp_le_length)
    ultimately show ?thesis using True n
      by (simp add: rot bit_or_iff bit_push_bit_iff bit_drop_bit_eq)
  next
    case False
    then have "(n + r) mod 32 = r + n" using n assms by simp
    then show ?thesis using False n
      by (simp add: rot bit_or_iff bit_push_bit_iff bit_drop_bit_eq)
  qed
qed

lemma shl_or_shr_at_rotl:
  "l + r = 32 \<Longrightarrow> 0 < l \<Longrightarrow> l < 32 \<Longrightarrow> shl_or_shr_at a l r st = st[a := word_rotl l (st ! a)]"
  by (simp only: shl_or_shr_at_def shl_or_shr_rotl)

lemma QROUND_quarter_at:
  assumes "distinct [a, b, c, d]" "a < length st" "b < length st" "c < length st" "d < length st"
  shows "QROUND a b c d st = quarter_at (a, b, c, d) st"
  using assms
  apply (simp add: QROUND_def run_def shl_or_shr_at_rotl)
  apply (simp add: add_at_def xor_at_def quarter_at_def quarter_round_def Let_def)
  apply (simp add: list_eq_iff_nth_eq nth_list_update)
  done


lemma length_quarter_at [simp]: "length (quarter_at ijkl st) = length st"
  by (cases ijkl) (simp add: quarter_at_def split: prod.splits)

lemma length_double_round [simp]: "length (double_round st) = length st"
  by (simp add: double_round_def columns_def diagonals_def)

lemma length_double_rounds [simp]: "length ((double_round ^^ n) st) = length st"
  by (induction n) simp_all

lemma rounds_body_double_round:
  assumes "length st = 16"
  shows "rounds_body st = double_round st"
  using assms
  by (simp add: rounds_body_def run_def double_round_def columns_def diagonals_def
      QROUND_quarter_at)

lemma rounds_double_rounds:
  "length st = 16 \<Longrightarrow> (rounds_body ^^ n) st = (double_round ^^ n) st"
  by (induction n) (simp_all add: rounds_body_double_round)

lemma upt_12: "[0..<12] = [0, 1, 2, 3, 4, 5, 6, 7, 8, 9, 10, 11]"
  by (simp add: upt_rec)

lemma upt_4_14: "[4..<14] = [4, 5, 6, 7, 8, 9, 10, 11, 12, 13]"
  by (simp add: upt_rec)

lemma upt_8: "[0..<8] = [0, 1, 2, 3, 4, 5, 6, 7]"
  by (simp add: upt_rec)

lemma upt_4: "[0..<4] = [0, 1, 2, 3]"
  by (simp add: upt_rec)

lemma load_state_spec:
  "load_state (big_endian cfg) (state_d p) cc = spec_input (key_words cfg p) (nonce_words cfg p) cc"
  by (simp add: load_state_def spec_input_def key_words_def nonce_words_def run_def
      xor_val_at_def CW_def upt_12 upt_8 upt_4)

lemma length_spec_input [simp]: "length key = 8 \<Longrightarrow> length (spec_input key nonce cc) = 16"
  by (simp add: spec_input_def CW_def)

lemma length_key_words [simp]: "length (key_words cfg p) = 8"
  by (simp add: key_words_def)

lemma list16:
  assumes "length st = 16"
  obtains s0 s1 s2 s3 s4 s5 s6 s7 s8 s9 s10 s11 s12 s13 s14 s15
  where "st = [s0, s1, s2, s3, s4, s5, s6, s7, s8, s9, s10, s11, s12, s13, s14, s15]"
  using assms by (auto simp: length_Suc_conv eval_nat_numeral)

lemma add_back_spec:
  assumes "length st = 16"
  shows "add_back (big_endian cfg) (state_d p) cc st
         = map2 (+) st (spec_input (key_words cfg p) (nonce_words cfg p) cc)"
proof -
  from assms obtain s0 s1 s2 s3 s4 s5 s6 s7 s8 s9 s10 s11 s12 s13 s14 s15
    where st: "st = [s0, s1, s2, s3, s4, s5, s6, s7, s8, s9, s10, s11, s12, s13, s14, s15]"
    by (rule list16)
  show ?thesis
    by (simp add: st add_back_def spec_input_def key_words_def nonce_words_def run_def
        add_val_at_def CW_def upt_4_14 upt_8 upt_4)
qed

lemma block_words_spec:
  "concat (map enc32le (block_words (big_endian cfg) (state_d p) cc))
   = spec_block (key_words cfg p) (nonce_words cfg p) cc"
  by (simp add: block_words_def spec_block_def Let_def load_state_spec rounds_double_rounds
      add_back_spec)

lemma length_block_words [simp]:
  "length (block_words (big_endian (cfg :: build)) (state_d (p :: prng)) cc) = 16"
  by (simp add: block_words_def load_state_spec rounds_double_rounds add_back_spec)


lemma upd4:
  "4 \<le> length D \<Longrightarrow> D[0 := a, 1 := b, 2 := c, 3 := d] = [a, b, c, d] @ drop 4 D"
  by (cases D; simp; rename_tac D1; case_tac D1; simp; rename_tac D2; case_tac D2; simp;
      rename_tac D3; case_tac D3; simp)

lemma length_enc32le [simp]: "length (enc32le w) = 4"
  by (simp add: enc32le_def)

lemma length_concat_enc32le [simp]: "length (concat (map enc32le ws)) = 4 * length ws"
  by (induction ws) simp_all

lemma store_word_le_memcpy:
  assumes "length X = 4 * v" "u + 4 * v + 4 \<le> length buf"
  shows "store_word_le u st v (memcpy_at buf u X) = memcpy_at buf u (X @ enc32le (st ! v))"
proof -
  let ?D = "drop (u + 4 * v) buf"
  have len: "4 \<le> length ?D" using assms by simp
  have "store_word_le u st v (memcpy_at buf u X)
        = take u buf @ X @ ?D[0 := ucast (st ! v), 1 := ucast (drop_bit 8 (st ! v)),
            2 := ucast (drop_bit 16 (st ! v)), 3 := ucast (drop_bit 24 (st ! v))]"
    using assms by (simp add: store_word_le_def memcpy_at_def list_update_append)
  also have "\<dots> = take u buf @ X @ enc32le (st ! v) @ drop 4 ?D"
    by (simp only: upd4 [OF len] enc32le_def)
  also have "\<dots> = memcpy_at buf u (X @ enc32le (st ! v))"
    using assms by (simp add: memcpy_at_def ac_simps)
  finally show ?thesis .
qed

lemma store_words_le_memcpy:
  "n \<le> length st \<Longrightarrow> u + 4 * length st \<le> length buf \<Longrightarrow>
   fold (store_word_le u st) [0..<n] buf = memcpy_at buf u (concat (map enc32le (take n st)))"
proof (induction n)
  case 0
  then show ?case by (simp add: memcpy_at_def)
next
  case (Suc n)
  then show ?case
    by (simp add: store_word_le_memcpy take_Suc_conv_app_nth)
qed

lemma store_block_memcpy:
  assumes "platform_ok cfg" "length st = 16" "u + 64 \<le> length buf"
  shows "store_block cfg u st buf = memcpy_at buf u (concat (map enc32le st))"
proof (cases "FALCON_LE_U cfg")
  case True
  with assms(1) have "\<not> big_endian cfg" by (simp add: platform_ok_def)
  with True show ?thesis by (simp add: store_block_def native_def)
next
  case False
  then show ?thesis
    using store_words_le_memcpy [of 16 st u buf] assms by (simp add: store_block_def)
qed


lemma memcpy_at_append:
  "length pre = off \<Longrightarrow> memcpy_at (pre @ rest) off X = pre @ X @ drop (length X) rest"
  by (simp add: memcpy_at_def)


lemma length_memcpy_at [simp]:
  "off + length X \<le> length dst \<Longrightarrow> length (memcpy_at dst off X) = length dst"
  by (simp add: memcpy_at_def)

lemma refill_blocks_tail:
  fixes cfg :: build and p :: prng
  assumes ok: "platform_ok cfg"
  shows "m \<le> 8 \<Longrightarrow> length buf = sizeof_buf \<Longrightarrow>
     refill_blocks cfg (state_d p) (sizeof_buf - 64 * m) cc buf
     = (cc + word_of_nat m,
        take (sizeof_buf - 64 * m) buf
        @ concat (map (\<lambda>i. spec_block (key_words cfg p) (nonce_words cfg p) (cc + word_of_nat i)) [0..<m]))"
proof (induction m arbitrary: cc buf)
  case 0
  then show ?case by (subst refill_blocks.simps) simp
next
  case (Suc m)
  define u where "u = sizeof_buf - 64 * Suc m"
  define buf' where "buf' = store_block cfg u (block_words (big_endian cfg) (state_d p) cc) buf"
  let ?bb = "\<lambda>c. spec_block (key_words cfg p) (nonce_words cfg p) c"
  have u: "u + 64 = sizeof_buf - 64 * m" "u < sizeof_buf" "u + 64 \<le> length buf"
    using Suc.prems by (simp_all add: sizeof_buf_def u_def)
  have buf': "buf' = memcpy_at buf u (?bb cc)"
    using ok u(3) by (simp add: buf'_def store_block_memcpy block_words_spec)
  have lbb: "length (?bb cc) = 64"
    by (simp add: block_words_spec [symmetric])
  have len': "length buf' = sizeof_buf"
    using u(3) Suc.prems(2) by (simp add: buf' lbb)
  have tk: "take (u + 64) buf' = take u buf @ ?bb cc"
    using u(3) by (simp add: buf' memcpy_at_def lbb)
  have "refill_blocks cfg (state_d p) u cc buf
        = refill_blocks cfg (state_d p) (u + 64) (cc + 1) buf'"
    using u(2) by (subst refill_blocks.simps) (simp add: buf'_def)
  also have "\<dots> = (cc + 1 + word_of_nat m,
        take (u + 64) buf'
        @ concat (map (\<lambda>i. ?bb (cc + 1 + word_of_nat i)) [0..<m]))"
    unfolding u(1) using Suc.prems len' by (intro Suc.IH) simp_all
  also have "\<dots> = (cc + word_of_nat (Suc m),
        take u buf @ concat (map (\<lambda>i. ?bb (cc + word_of_nat i)) [0..<Suc m]))"
    by (simp add: tk upt_conv_Cons map_Suc_upt [symmetric] comp_def ac_simps del: upt_Suc)
  finally show ?case unfolding u_def .
qed

lemma refill_blocks_spec:
  assumes "platform_ok cfg" "length buf = sizeof_buf"
  shows "refill_blocks cfg (state_d p) 0 cc buf
         = (cc + 8, fst (spec_refill (key_words cfg p) (nonce_words cfg p) cc))"
  using refill_blocks_tail [OF assms(1), of 8 buf p cc] assms(2)
  by (simp add: sizeof_buf_def spec_refill_def)

section \<open>Byte order of loads and stores\<close>

lemma dec32le_enc32le [simp]: "dec32le (enc32le w) = w"
proof (rule bit_word_eqI)
  fix n assume "n < LENGTH(32)"
  then have n: "n < 32" by simp
  consider "n < 8" | "8 \<le> n" "n < 16" | "16 \<le> n" "n < 24" | "24 \<le> n" "n < 32"
    using n by linarith
  then show "bit (dec32le (enc32le w)) n = bit w n"
    by cases (auto simp: dec32le_def enc32le_def bit_simps)
qed

lemma dec64le_enc64le [simp]: "dec64le (enc64le w) = w"
proof (rule bit_word_eqI)
  fix n assume "n < LENGTH(64)"
  then have n: "n < 64" by simp
  consider "n < 32" | "32 \<le> n" "n < 64"
    using n by linarith
  then show "bit (dec64le (enc64le w)) n = bit w n"
    by cases (auto simp: dec64le_def enc64le_def bit_simps)
qed

lemma length_native [simp]: "length (native be bs) = length bs"
  by (simp add: native_def)

lemma native_native [simp]: "native be (native be bs) = bs"
  by (simp add: native_def)

lemma length_enc64le [simp]: "length (enc64le w) = 8"
  by (simp add: enc64le_def)

lemma load64_store64:
  "off + 8 \<le> length d \<Longrightarrow> load64 be (store64 be d off w) off = w"
  by (simp add: load64_def store64_def memcpy_at_def)

lemma load32_store32:
  "off + 4 \<le> length d \<Longrightarrow> load32 be (store32 be d off w) off = w"
  by (simp add: load32_def store32_def memcpy_at_def)

lemma length_store64 [simp]:
  "off + 8 \<le> length d \<Longrightarrow> length (store64 be d off w) = length d"
  by (simp add: store64_def)

lemma length_store32 [simp]:
  "off + 4 \<le> length d \<Longrightarrow> length (store32 be d off w) = length d"
  by (simp add: store32_def)

lemma take_drop_append_left:
  "off' + n \<le> length A \<Longrightarrow> take n (drop off' (A @ B)) = take n (drop off' A)"
  by simp

lemma take_drop_memcpy_at_below:
  assumes "off' + n \<le> off" "off \<le> length d"
  shows "take n (drop off' (memcpy_at d off X)) = take n (drop off' d)"
proof -
  have len: "off' + n \<le> length (take off d)" using assms by simp
  have "take n (drop off' (memcpy_at d off X)) = take n (drop off' (take off d))"
    unfolding memcpy_at_def by (rule take_drop_append_left [OF len])
  also have "\<dots> = take n (drop off' (take off d @ drop off d))"
    by (rule take_drop_append_left [OF len, symmetric])
  finally show ?thesis by simp
qed

lemma take_drop_memcpy_at_above:
  "off + length X \<le> off' \<Longrightarrow> off + length X \<le> length d \<Longrightarrow>
   drop off' (memcpy_at d off X) = drop off' d"
  by (simp add: memcpy_at_def)

lemma load32_store64_below:
  "off' + 4 \<le> off \<Longrightarrow> off + 8 \<le> length d \<Longrightarrow>
   load32 be (store64 be d off w) off' = load32 be d off'"
  by (simp add: load32_def store64_def take_drop_memcpy_at_below)

lemma load32_store32_other:
  "off' + 4 \<le> off \<or> off + 4 \<le> off' \<Longrightarrow> off + 4 \<le> length d \<Longrightarrow>
   load32 be (store32 be d off w) off' = load32 be d off'"
  by (auto simp: load32_def store32_def take_drop_memcpy_at_below take_drop_memcpy_at_above)

section \<open>The refill as a whole, and the counter\<close>

lemma views_store64:
  fixes cfg :: build and p :: prng
  assumes "length (state_d p) = 56" "state_d p' = store64 (big_endian cfg) (state_d p) 48 w"
  shows "key_words cfg p' = key_words cfg p" "nonce_words cfg p' = nonce_words cfg p"
    "counter cfg p' = w"
  using assms
  by (simp_all add: key_words_def nonce_words_def counter_def load32_store64_below load64_store64)

lemma refill_chacha20_spec:
  assumes "platform_ok cfg" "prng_ok p"
  shows "refill_chacha20 cfg p
         = p\<lparr>buf_d := fst (spec_refill (key_words cfg p) (nonce_words cfg p) (counter cfg p)),
              state_d := store64 (big_endian cfg) (state_d p) 48 (counter cfg p + 8)\<rparr>"
  using assms
  by (simp add: refill_chacha20_def prng_ok_def refill_blocks_spec counter_def)


lemma blank_ok: "prng_ok (blank\<lparr>type := t\<rparr>)" "prng_ok blank"
  by (simp_all add: blank_def prng_ok_def sizeof_buf_def)

lemma builds_ok: "platform_ok enclave_build" "platform_ok portable_build"
  by (simp_all add: platform_ok_def enclave_build_def portable_build_def)


lemma refill_blocks_counter:
  "m \<le> 8 \<Longrightarrow> fst (refill_blocks cfg sd (sizeof_buf - 64 * m) cc buf) = cc + word_of_nat m"
proof (induction m arbitrary: cc buf)
  case 0
  then show ?case by (subst refill_blocks.simps) simp
next
  case (Suc m)
  define u where "u = sizeof_buf - 64 * Suc m"
  have u: "u + 64 = sizeof_buf - 64 * m" "u < sizeof_buf"
    using Suc.prems by (simp_all add: sizeof_buf_def u_def)
  have "fst (refill_blocks cfg sd u cc buf)
        = fst (refill_blocks cfg sd (sizeof_buf - 64 * m) (cc + 1)
                 (store_block cfg u (block_words (big_endian cfg) sd cc) buf))"
    using u by (subst refill_blocks.simps) simp
  also have "\<dots> = cc + 1 + word_of_nat m"
    using Suc.prems by (intro Suc.IH) simp
  finally show ?case by (simp add: u_def ac_simps)
qed

lemma refill_chacha20_counter:
  fixes cfg :: build and p :: prng
  assumes "length (state_d p) = 56"
  shows "counter cfg (refill_chacha20 cfg p) = counter cfg p + 8"
    and "length (state_d (refill_chacha20 cfg p)) = 56"
    and "type (refill_chacha20 cfg p) = type p"
proof -
  obtain cc buf where rb:
    "refill_blocks cfg (state_d p) 0 (load64 (big_endian cfg) (state_d p) 48) (buf_d p) = (cc, buf)"
    by (cases "refill_blocks cfg (state_d p) 0 (load64 (big_endian cfg) (state_d p) 48) (buf_d p)")
  have "cc = counter cfg p + 8"
    using refill_blocks_counter [of 8 cfg "state_d p" "load64 (big_endian cfg) (state_d p) 48" "buf_d p"]
    by (simp add: rb sizeof_buf_def counter_def)
  then show "counter cfg (refill_chacha20 cfg p) = counter cfg p + 8"
    and "length (state_d (refill_chacha20 cfg p)) = 56"
    and "type (refill_chacha20 cfg p) = type p"
    using assms by (simp_all add: refill_chacha20_def rb counter_def load64_store64)
qed

lemma falcon_prng_refill_counter:
  fixes cfg :: build and p :: prng
  assumes "type p = PRNG_CHACHA20" "length (state_d p) = 56"
  shows "\<exists>p'. falcon_prng_refill cfg p = Inr p' \<and> counter cfg p' = counter cfg p + 8
           \<and> type p' = PRNG_CHACHA20 \<and> length (state_d p') = 56"
  using assms refill_chacha20_counter [OF assms(2), of cfg]
  by (simp add: falcon_prng_refill_def counter_def)

lemma refills_counter:
  fixes cfg :: build and p :: prng
  shows "type p = PRNG_CHACHA20 \<Longrightarrow> length (state_d p) = 56 \<Longrightarrow>
    \<exists>p'. refills cfg n p = Inr p' \<and> counter cfg p' = counter cfg p + 8 * word_of_nat n"
proof (induction n arbitrary: p)
  case 0
  then show ?case by simp
next
  case (Suc n)
  from falcon_prng_refill_counter [OF Suc.prems, of cfg] obtain p1 where
    p1: "falcon_prng_refill cfg p = Inr p1" "counter cfg p1 = counter cfg p + 8"
      "type p1 = PRNG_CHACHA20" "length (state_d p1) = 56"
    by blast
  from Suc.IH [OF p1(3,4)] obtain p' where
    "refills cfg n p1 = Inr p'" "counter cfg p' = counter cfg p1 + 8 * word_of_nat n"
    by blast
  then show ?case by (simp add: p1 algebra_simps)
qed


section \<open>The extraction loop, pass by pass\<close>

lemma chunk_len_facts:
  assumes "unat (ptr p) \<le> sizeof_buf"
  shows "unat (chunk_len p len) = min (unat len) (sizeof_buf - unat (ptr p))"
    and "unat (ptr p + chunk_len p len) = unat (ptr p) + unat (chunk_len p len)"
    and "unat (len - chunk_len p len) = unat len - unat (chunk_len p len)"
    and "ptr p + chunk_len p len = word_of_nat sizeof_buf
         \<longleftrightarrow> unat (ptr p) + unat (chunk_len p len) = sizeof_buf"
  using assms unfolding chunk_len_def sizeof_buf_def
  by (simp_all split: if_splits; unat_arith)+

lemma get_bytes_loop_unfold:
  assumes "0 < len" "unat (ptr p) \<le> sizeof_buf"
  shows "get_bytes_loop cfg p out len =
     (if unat (ptr p) + unat (chunk_len p len) = sizeof_buf
      then (case falcon_prng_refill cfg (p\<lparr>ptr := ptr p + chunk_len p len\<rparr>) of
              Inl e \<Rightarrow> Inl e
            | Inr p'' \<Rightarrow> get_bytes_loop cfg p'' (out @ take (unat (chunk_len p len)) (buf_d p))
                          (len - chunk_len p len))
      else get_bytes_loop cfg (p\<lparr>ptr := ptr p + chunk_len p len\<rparr>)
             (out @ take (unat (chunk_len p len)) (buf_d p)) (len - chunk_len p len))"
proof -
  have "unat (chunk_len p len) \<le> sizeof_buf"
    using chunk_len_facts(1) [OF assms(2), of len] by simp
  then show ?thesis
    using assms(1) chunk_len_facts(4) [OF assms(2), of len]
    by (subst get_bytes_loop.simps) (simp add: Let_def chunk_len_def [symmetric])
qed


lemma get_bytes_loop_0: "get_bytes_loop cfg p out 0 = Inr (p, out)"
  by (subst get_bytes_loop.simps) simp

lemma get_bytes_loop_within:
  assumes "0 < len" "unat (ptr p) + unat len < sizeof_buf"
  shows "get_bytes_loop cfg p out len
         = Inr (p\<lparr>ptr := ptr p + len\<rparr>, out @ take (unat len) (buf_d p))"
proof -
  have le: "unat (ptr p) \<le> sizeof_buf" using assms(2) by simp
  have "unat (chunk_len p len) = unat len"
    using chunk_len_facts(1) [OF le, of len] assms(2) by simp
  then have cl: "chunk_len p len = len" by (simp add: word_unat_eq_iff)
  show ?thesis
    using assms(2) by (subst get_bytes_loop_unfold [OF assms(1) le]) (simp add: cl get_bytes_loop_0)
qed

lemma get_bytes_loop_induct [case_names zero step]:
  assumes zero: "\<And>p out. P p out 0"
    and step: "\<And>p out len. 0 < len \<Longrightarrow>
      (\<And>p''. unat (chunk_len p len) \<le> sizeof_buf \<Longrightarrow>
          ptr p + chunk_len p len = word_of_nat sizeof_buf \<Longrightarrow>
          falcon_prng_refill cfg (p\<lparr>ptr := ptr p + chunk_len p len\<rparr>) = Inr p'' \<Longrightarrow>
          P p'' (out @ take (unat (chunk_len p len)) (buf_d p)) (len - chunk_len p len)) \<Longrightarrow>
      (unat (chunk_len p len) \<le> sizeof_buf \<Longrightarrow>
          ptr p + chunk_len p len \<noteq> word_of_nat sizeof_buf \<Longrightarrow>
          P (p\<lparr>ptr := ptr p + chunk_len p len\<rparr>)
            (out @ take (unat (chunk_len p len)) (buf_d p)) (len - chunk_len p len)) \<Longrightarrow>
      P p out len"
  shows "P p out len"
proof -
  have "c = cfg \<Longrightarrow> P p out len" for c
  proof (induction c p out len rule: get_bytes_loop.induct)
    case (1 c p out len)
    note c = \<open>c = cfg\<close>
    show ?case
    proof (cases "0 < len")
      case False
      then have "len = 0" by (simp add: word_greater_zero_iff)
      then show ?thesis by (simp add: zero)
    next
      case True
      show ?thesis
      proof (rule step [OF True], goal_cases)
        case (1 p'')
        have small: "\<not> sizeof_buf < unat (if len < word_of_nat sizeof_buf - ptr p then len
                                            else word_of_nat sizeof_buf - ptr p)"
          using 1(1) by (simp add: chunk_len_def)
        show ?case
          unfolding chunk_len_def
          by (rule "1.IH"(1) [OF True refl refl small refl refl refl _
                1(3) [unfolded chunk_len_def, folded c] c])
            (simp add: 1(2) [unfolded chunk_len_def])
      next
        case 2
        have small: "\<not> sizeof_buf < unat (if len < word_of_nat sizeof_buf - ptr p then len
                                            else word_of_nat sizeof_buf - ptr p)"
          using 2(1) by (simp add: chunk_len_def)
        show ?case
          unfolding chunk_len_def
          by (rule "1.IH"(2) [OF True refl refl small refl refl refl _ c])
            (simp add: 2(2) [unfolded chunk_len_def])
      qed
    qed
  qed
  then show ?thesis by simp
qed

lemma get_bytes_loop_step:
  assumes "0 < len" "unat (chunk_len p len) \<le> sizeof_buf"
  shows "get_bytes_loop cfg p out len =
     (if ptr p + chunk_len p len = word_of_nat sizeof_buf
      then (case falcon_prng_refill cfg (p\<lparr>ptr := ptr p + chunk_len p len\<rparr>) of
              Inl e \<Rightarrow> Inl e
            | Inr p'' \<Rightarrow> get_bytes_loop cfg p'' (out @ take (unat (chunk_len p len)) (buf_d p))
                          (len - chunk_len p len))
      else get_bytes_loop cfg (p\<lparr>ptr := ptr p + chunk_len p len\<rparr>)
             (out @ take (unat (chunk_len p len)) (buf_d p)) (len - chunk_len p len))"
  using assms by (subst get_bytes_loop.simps) (simp add: Let_def chunk_len_def [symmetric])

lemma get_bytes_loop_bad:
  assumes "0 < len" "\<not> unat (chunk_len p len) \<le> sizeof_buf"
  shows "get_bytes_loop cfg p out len = Inl Bad_read"
  using assms by (subst get_bytes_loop.simps) (simp add: Let_def chunk_len_def [symmetric])

lemma get_bytes_loop_ptr:
  "unat (ptr p) \<le> sizeof_buf \<Longrightarrow> 0 < len \<or> unat (ptr p) < sizeof_buf
   \<Longrightarrow> get_bytes_loop cfg p out len = Inr (p', out') \<Longrightarrow> unat (ptr p') < sizeof_buf"
proof (induction p out len rule: get_bytes_loop_induct [where cfg = cfg])
  case (zero p out)
  then show ?case by (simp add: get_bytes_loop_0)
next
  case (step p out len)
  note cf = chunk_len_facts [OF step.prems(1), of len]
  have small: "unat (chunk_len p len) \<le> sizeof_buf" using cf(1) by simp
  show ?case
  proof (cases "ptr p + chunk_len p len = word_of_nat sizeof_buf")
    case True
    with step.prems(3) obtain p'' where
      r: "falcon_prng_refill cfg (p\<lparr>ptr := ptr p + chunk_len p len\<rparr>) = Inr p''"
      and l: "get_bytes_loop cfg p'' (out @ take (unat (chunk_len p len)) (buf_d p))
                (len - chunk_len p len) = Inr (p', out')"
      by (subst (asm) get_bytes_loop_step [OF step.hyps small]) (auto split: sum.splits)
    have p0: "ptr p'' = 0" using r by (rule falcon_prng_refill_ptr)
    show ?thesis
      by (rule step.IH(1) [OF small True r _ _ l]) (simp_all add: p0 sizeof_buf_def)
  next
    case False
    with step.prems(3) have
      l: "get_bytes_loop cfg (p\<lparr>ptr := ptr p + chunk_len p len\<rparr>)
            (out @ take (unat (chunk_len p len)) (buf_d p)) (len - chunk_len p len) = Inr (p', out')"
      by (subst (asm) get_bytes_loop_step [OF step.hyps small]) simp
    have lt: "unat (ptr p + chunk_len p len) < sizeof_buf"
      using cf(1,2,4) False step.prems(1) by (simp add: min_def split: if_splits)
    show ?thesis
      by (rule step.IH(2) [OF small False _ _ l]) (use lt in simp_all)
  qed
qed


lemma falcon_prng_init_default:
  "falcon_prng_init cfg p src 0 = falcon_prng_init cfg p src PRNG_CHACHA20"
  by (simp add: falcon_prng_init_def)

lemma falcon_prng_init_chacha20:
  "falcon_prng_init cfg p src PRNG_CHACHA20
     = Inr (PRNG_CHACHA20,
            (refill_chacha20 cfg
               (p\<lparr>state_d := (if FALCON_LE_U cfg then memcpy_at (state_d p) 0 (map src [0..<56])
                                else normalize_state (big_endian cfg) (map src [0..<56]) (state_d p)),
                   type := PRNG_CHACHA20\<rparr>))\<lparr>ptr := 0\<rparr>,
            \<lambda>i. src (56 + i))"
  by (simp add: falcon_prng_init_def falcon_prng_refill_def shake_extract_def Let_def)

lemma falcon_prng_init_ptr:
  assumes "falcon_prng_init cfg p src t = Inr (r, p', src')" "r \<noteq> 0"
  shows "ptr p' = 0"
  using assms
  by (auto simp: falcon_prng_init_def Let_def split: if_splits prod.splits sum.splits
      dest: falcon_prng_refill_ptr)


lemma get_bytes_loop_reaches_end:
  assumes "0 < len" "unat (ptr p) \<le> sizeof_buf" "sizeof_buf \<le> unat (ptr p) + unat len"
  shows "get_bytes_loop cfg p out len =
     (case falcon_prng_refill cfg (p\<lparr>ptr := word_of_nat sizeof_buf\<rparr>) of
        Inl e \<Rightarrow> Inl e
      | Inr p'' \<Rightarrow> get_bytes_loop cfg p'' (out @ take (sizeof_buf - unat (ptr p)) (buf_d p))
                    (len - chunk_len p len))"
proof -
  note cf = chunk_len_facts [OF assms(2), of len]
  have cl: "unat (chunk_len p len) = sizeof_buf - unat (ptr p)"
    using cf(1) assms(3) by simp
  then have full: "ptr p + chunk_len p len = word_of_nat sizeof_buf"
    using cf(4) assms(2) by simp
  have small: "unat (chunk_len p len) \<le> sizeof_buf" using cl by simp
  show ?thesis
    by (subst get_bytes_loop_step [OF assms(1) small]) (simp add: full cl cong: sum.case_cong)
qed

lemma blank_simps [simp]:
  "ptr blank = 0" "type blank = 0" "buf_d blank = replicate 512 0" "state_d blank = replicate 56 0"
  by (simp_all add: blank_def)


section \<open>The state area after initialisation\<close>

lemma store_tmp_word_eq:
  assumes "4 * i + 4 \<le> length tmp"
  shows "store_tmp_word be tmp i sd = store32 be sd (4 * i) (dec32le (take 4 (drop (4 * i) tmp)))"
  using assms by (simp add: store_tmp_word_def dec32le_def Let_def)

lemma fold_store_tmp_word:
  assumes "length tmp = 56" "length sd = 56"
  shows "n \<le> 14 \<Longrightarrow>
    length (fold (store_tmp_word be tmp) [0..<n] sd) = 56
    \<and> (\<forall>i<14. load32 be (fold (store_tmp_word be tmp) [0..<n] sd) (4 * i)
          = (if i < n then dec32le (take 4 (drop (4 * i) tmp)) else load32 be sd (4 * i)))"
proof (induction n)
  case 0
  then show ?case using assms by simp
next
  case (Suc n)
  let ?sd = "fold (store_tmp_word be tmp) [0..<n] sd"
  from Suc have IH: "length ?sd = 56"
    "\<And>i. i < 14 \<Longrightarrow> load32 be ?sd (4 * i)
          = (if i < n then dec32le (take 4 (drop (4 * i) tmp)) else load32 be sd (4 * i))"
    by simp_all
  have n: "4 * n + 4 \<le> 56" using Suc.prems by simp
  have step: "fold (store_tmp_word be tmp) [0..<Suc n] sd
        = store32 be ?sd (4 * n) (dec32le (take 4 (drop (4 * n) tmp)))"
    using n assms(1) by (simp add: store_tmp_word_eq)
  show ?case
  proof (intro conjI allI impI)
    show "length (fold (store_tmp_word be tmp) [0..<Suc n] sd) = 56"
      using n IH(1) by (simp only: step length_store32)
  next
    fix i :: nat assume i: "i < 14"
    show "load32 be (fold (store_tmp_word be tmp) [0..<Suc n] sd) (4 * i)
          = (if i < Suc n then dec32le (take 4 (drop (4 * i) tmp)) else load32 be sd (4 * i))"
    proof (cases "i = n")
      case True
      then show ?thesis using n IH(1) by (simp only: step) (simp add: load32_store32)
    next
      case False
      then have "4 * i + 4 \<le> 4 * n \<or> 4 * n + 4 \<le> 4 * i" by arith
      then have "load32 be (store32 be ?sd (4 * n) (dec32le (take 4 (drop (4 * n) tmp)))) (4 * i)
            = load32 be ?sd (4 * i)"
        using n IH(1) by (intro load32_store32_other) simp_all
      then show ?thesis using False IH(2) [OF i] by (simp only: step) auto
    qed
  qed
qed

lemma ucast_add_push_bit_32:
  fixes a b :: u32
  shows "(ucast a :: u64) + push_bit 32 (ucast b) = ucast a OR push_bit 32 (ucast b)"
  by (rule disjunctive_add) (auto simp: bit_simps dest: bit_imp_le_length)


lemma normalize_state_words:
  assumes "length tmp = 56" "length sd = 56"
  shows "length (normalize_state be tmp sd) = 56"
    and "i < 12 \<Longrightarrow> load32 be (normalize_state be tmp sd) (4 * i) = dec32le (take 4 (drop (4 * i) tmp))"
    and "load64 be (normalize_state be tmp sd) 48 = dec64le (drop 48 tmp)"
proof -
  let ?sd1 = "fold (store_tmp_word be tmp) [0..<14] sd"
  from fold_store_tmp_word [OF assms, of 14 be]
  have len: "length ?sd1 = 56"
    and w: "\<And>i. i < 14 \<Longrightarrow> load32 be ?sd1 (4 * i) = dec32le (take 4 (drop (4 * i) tmp))"
    by simp_all
  have tl: "load32 be ?sd1 48 = dec32le (take 4 (drop 48 tmp))" using w [of 12] by simp
  have th: "load32 be ?sd1 52 = dec32le (take 4 (drop 52 tmp))" using w [of 13] by simp
  have ns: "normalize_state be tmp sd
        = store64 be ?sd1 48 (dec64le (drop 48 tmp))"
    by (simp add: normalize_state_def Let_def tl th ucast_add_push_bit_32 dec64le_def)
  show "length (normalize_state be tmp sd) = 56" using len by (simp add: ns)
  show "load64 be (normalize_state be tmp sd) 48 = dec64le (drop 48 tmp)"
    using len by (simp add: ns load64_store64)
  show "load32 be (normalize_state be tmp sd) (4 * i) = dec32le (take 4 (drop (4 * i) tmp))"
    if "i < 12"
    using that len w [of i] by (simp add: ns load32_store64_below)
qed

lemma init_state_words:
  assumes "platform_ok cfg" "length tmp = 56" "length sd = 56"
  defines "sd' \<equiv> (if FALCON_LE_U cfg then memcpy_at sd 0 tmp
                    else normalize_state (big_endian cfg) tmp sd)"
  shows "length sd' = 56"
    and "i < 12 \<Longrightarrow> load32 (big_endian cfg) sd' (4 * i) = dec32le (take 4 (drop (4 * i) tmp))"
    and "load64 (big_endian cfg) sd' 48 = dec64le (drop 48 tmp)"
proof -
  show "length sd' = 56"
    using assms(2,3) by (simp add: sd'_def normalize_state_words(1) memcpy_at_def)
  show "load32 (big_endian cfg) sd' (4 * i) = dec32le (take 4 (drop (4 * i) tmp))" if "i < 12"
  proof (cases "FALCON_LE_U cfg")
    case True
    with assms(1) have "\<not> big_endian cfg" by (simp add: platform_ok_def)
    with True assms(2,3) show ?thesis
      by (simp add: sd'_def memcpy_at_def load32_def native_def)
  next
    case False
    with that assms(2,3) show ?thesis by (simp add: sd'_def normalize_state_words(2))
  qed
  show "load64 (big_endian cfg) sd' 48 = dec64le (drop 48 tmp)"
  proof (cases "FALCON_LE_U cfg")
    case True
    with assms(1) have "\<not> big_endian cfg" by (simp add: platform_ok_def)
    with True assms(2,3) show ?thesis
      by (simp add: sd'_def memcpy_at_def load64_def native_def)
  next
    case False
    with assms(2,3) show ?thesis by (simp add: sd'_def normalize_state_words(3))
  qed
qed

lemma init_views:
  fixes cfg :: build and p :: prng
  assumes "platform_ok cfg" "length tmp = 56" "length (state_d p) = 56"
  defines "p1 \<equiv> p\<lparr>state_d := (if FALCON_LE_U cfg then memcpy_at (state_d p) 0 tmp
                     else normalize_state (big_endian cfg) tmp (state_d p)),
                   type := PRNG_CHACHA20\<rparr>"
  shows "key_words cfg p1 @ nonce_words cfg p1 = take 12 (le_words tmp)"
    and "counter cfg p1 = dec64le (drop 48 tmp)"
    and "length (state_d p1) = 56"
proof -
  note w = init_state_words [OF assms(1-3)]
  have "key_words cfg p1 @ nonce_words cfg p1
        = map (\<lambda>i. load32 (big_endian cfg) (state_d p1) (4 * i)) [0..<12]"
    by (simp add: key_words_def nonce_words_def upt_8 upt_4 upt_12)
  also have "\<dots> = map (\<lambda>i. dec32le (take 4 (drop (4 * i) tmp))) [0..<12]"
    by (rule map_cong [OF refl]) (simp add: p1_def w(2))
  also have "\<dots> = take 12 (le_words tmp)"
    using assms(2) by (simp add: le_words_def take_map)
  finally show "key_words cfg p1 @ nonce_words cfg p1 = take 12 (le_words tmp)" .
  show "counter cfg p1 = dec64le (drop 48 tmp)"
    by (simp add: counter_def p1_def w(3))
  show "length (state_d p1) = 56"
    by (simp add: p1_def w(1))
qed


lemma dec64le_le_words:
  assumes "length tmp = 56"
  shows "dec64le (drop 48 tmp)
         = ucast (le_words tmp ! 12) + push_bit 32 (ucast (le_words tmp ! 13))"
  using assms by (simp add: le_words_def dec64le_def ucast_add_push_bit_32)

lemma length_shake_extract [simp]: "length (fst (shake_extract src n)) = n"
  by (simp add: shake_extract_def)


lemma counting_words:
  "le_words (fst (shake_extract counting_src 56)) =
    [0x03020100, 0x07060504, 0x0b0a0908, 0x0f0e0d0c, 0x13121110, 0x17161514, 0x1b1a1918,
     0x1f1e1d1c, 0x23222120, 0x27262524, 0x2b2a2928, 0x2f2e2d2c, 0x33323130, 0x37363534]"
  by (simp add: shake_extract_def counting_src_def le_words_def dec32le_def upt_rec)


section \<open>Two instances in step\<close>

lemma length_concat_enc32le_comp [simp]:
  "length (concat (map (enc32le \<circ> f) xs)) = 4 * length xs"
  by (induction xs) simp_all

lemma length_spec_block [simp]:
  "length key = 8 \<Longrightarrow> length (spec_block key nonce cc) = 64"
  by (simp add: spec_block_def Let_def)

lemma length_spec_refill [simp]:
  "length key = 8 \<Longrightarrow> length (fst (spec_refill key nonce cc)) = 512"
  by (simp add: spec_refill_def upt_8)

lemma refill_in_step:
  assumes ok: "platform_ok cfg1" "platform_ok cfg2" "prng_ok p1" "prng_ok p2"
    and t: "type p1 = PRNG_CHACHA20" and s: "same_state cfg1 p1 cfg2 p2"
  shows "\<exists>p1' p2'. falcon_prng_refill cfg1 p1 = Inr p1' \<and> falcon_prng_refill cfg2 p2 = Inr p2'
           \<and> in_step cfg1 p1' cfg2 p2' \<and> ptr p1' = 0"
proof -
  define p1' where "p1' = (refill_chacha20 cfg1 p1)\<lparr>ptr := 0\<rparr>"
  define p2' where "p2' = (refill_chacha20 cfg2 p2)\<lparr>ptr := 0\<rparr>"
  have t2: "type p2 = PRNG_CHACHA20" using s t by (simp add: same_state_def)
  have len: "length (state_d p1) = 56" "length (state_d p2) = 56"
    using ok(3,4) by (simp_all add: prng_ok_def)
  have sd1: "state_d p1' = store64 (big_endian cfg1) (state_d p1) 48 (counter cfg1 p1 + 8)"
    and sd2: "state_d p2' = store64 (big_endian cfg2) (state_d p2) 48 (counter cfg2 p2 + 8)"
    and b1: "buf_d p1' = fst (spec_refill (key_words cfg1 p1) (nonce_words cfg1 p1) (counter cfg1 p1))"
    and b2: "buf_d p2' = fst (spec_refill (key_words cfg2 p2) (nonce_words cfg2 p2) (counter cfg2 p2))"
    and r: "ptr p1' = 0" "ptr p2' = 0" "type p1' = PRNG_CHACHA20" "type p2' = PRNG_CHACHA20"
    using ok t t2 by (simp_all add: p1'_def p2'_def refill_chacha20_spec)
  note v1 = views_store64 [OF len(1) sd1] and v2 = views_store64 [OF len(2) sd2]
  have "same_state cfg1 p1' cfg2 p2'"
    using s by (simp add: same_state_def v1 v2 r)
  moreover have "buf_d p1' = buf_d p2'"
    using s by (simp add: b1 b2 same_state_def)
  moreover have "prng_ok p1'" "prng_ok p2'"
    using len by (simp_all add: prng_ok_def b1 b2 sd1 sd2 sizeof_buf_def)
  moreover have "falcon_prng_refill cfg1 p1 = Inr p1'" "falcon_prng_refill cfg2 p2 = Inr p2'"
    using t t2 by (simp_all add: falcon_prng_refill_def p1'_def p2'_def)
  ultimately show ?thesis
    using r by (intro exI [of _ p1'] exI [of _ p2']) (simp add: in_step_def)
qed

lemma in_step_ptr_update:
  "in_step cfg1 p1 cfg2 p2 \<Longrightarrow> in_step cfg1 (p1\<lparr>ptr := c\<rparr>) cfg2 (p2\<lparr>ptr := c\<rparr>)"
  by (simp add: in_step_def same_state_def prng_ok_def key_words_def nonce_words_def counter_def)

lemma chunk_len_in_step:
  "in_step cfg1 p1 cfg2 p2 \<Longrightarrow> chunk_len p1 len = chunk_len p2 len"
  by (simp add: in_step_def chunk_len_def)

lemma get_bytes_loop_in_step:
  assumes ok: "platform_ok cfg1" "platform_ok cfg2"
  shows "in_step cfg1 p1 cfg2 p2 \<Longrightarrow> unat (ptr p1) < sizeof_buf \<Longrightarrow>
    \<exists>p1' p2' out'. get_bytes_loop cfg1 p1 out len = Inr (p1', out')
        \<and> get_bytes_loop cfg2 p2 out len = Inr (p2', out')
        \<and> in_step cfg1 p1' cfg2 p2' \<and> unat (ptr p1') < sizeof_buf
        \<and> length out' = length out + unat len"
proof (induction p1 out len arbitrary: p2 rule: get_bytes_loop_induct [where cfg = cfg1])
  case (zero p out)
  then show ?case by (simp add: get_bytes_loop_0)
next
  case (step p out len)
  note st = step.prems(1)
  have le: "unat (ptr p) \<le> sizeof_buf" using step.prems(2) by simp
  note cf = chunk_len_facts [OF le, of len]
  have small: "unat (chunk_len p len) \<le> sizeof_buf" using cf(1) by simp
  have cl2: "chunk_len p2 len = chunk_len p len" using st by (simp add: chunk_len_in_step)
  have pb: "ptr p2 = ptr p" "buf_d p2 = buf_d p" using st by (simp_all add: in_step_def)
  have lbuf: "length (buf_d p) = sizeof_buf" using st by (simp add: in_step_def prng_ok_def)
  have lout: "length (out @ take (unat (chunk_len p len)) (buf_d p)) + unat (len - chunk_len p len)
              = length out + unat len"
  proof -
    have "unat (chunk_len p len) \<le> unat len" using cf(1) by simp
    then show ?thesis using cf(3) lbuf small by simp
  qed
  note st' = in_step_ptr_update [OF st, of "ptr p + chunk_len p len"]
  show ?case
  proof (cases "ptr p + chunk_len p len = word_of_nat sizeof_buf")
    case True
    from st' have ts: "type (p\<lparr>ptr := ptr p + chunk_len p len\<rparr>) = PRNG_CHACHA20"
      "same_state cfg1 (p\<lparr>ptr := ptr p + chunk_len p len\<rparr>) cfg2 (p2\<lparr>ptr := ptr p + chunk_len p len\<rparr>)"
      "prng_ok (p\<lparr>ptr := ptr p + chunk_len p len\<rparr>)" "prng_ok (p2\<lparr>ptr := ptr p + chunk_len p len\<rparr>)"
      by (simp_all add: in_step_def)
    from refill_in_step [OF ok ts(3,4,1,2)] obtain q1 q2 where
      q: "falcon_prng_refill cfg1 (p\<lparr>ptr := ptr p + chunk_len p len\<rparr>) = Inr q1"
        "falcon_prng_refill cfg2 (p2\<lparr>ptr := ptr p + chunk_len p len\<rparr>) = Inr q2"
        "in_step cfg1 q1 cfg2 q2" "ptr q1 = 0"
      by blast
    have q0: "unat (ptr q1) < sizeof_buf" using q(4) by (simp add: sizeof_buf_def)
    from step.IH(1) [OF small True q(1) q(3) q0] obtain r1 r2 out' where
      r: "get_bytes_loop cfg1 q1 (out @ take (unat (chunk_len p len)) (buf_d p))
            (len - chunk_len p len) = Inr (r1, out')"
        "get_bytes_loop cfg2 q2 (out @ take (unat (chunk_len p len)) (buf_d p))
            (len - chunk_len p len) = Inr (r2, out')"
        "in_step cfg1 r1 cfg2 r2" "unat (ptr r1) < sizeof_buf"
        "length out' = length (out @ take (unat (chunk_len p len)) (buf_d p))
            + unat (len - chunk_len p len)"
      by blast
    have "length out' = length out + unat len" using r(5) lout by linarith
    moreover have "get_bytes_loop cfg1 p out len = Inr (r1, out')"
      using True q(1) r(1) by (simp add: get_bytes_loop_step [OF step.hyps small])
    moreover have "get_bytes_loop cfg2 p2 out len = Inr (r2, out')"
      using True q(2) r(2)
      by (simp add: get_bytes_loop_step [of len p2, unfolded cl2 pb, OF step.hyps small])
    ultimately show ?thesis using r(3,4) by blast
  next
    case False
    have lt: "unat (ptr (p\<lparr>ptr := ptr p + chunk_len p len\<rparr>)) < sizeof_buf"
      using cf(1,2,4) False le by (simp add: min_def split: if_splits)
    from step.IH(2) [OF small False st' lt] obtain r1 r2 out' where
      r: "get_bytes_loop cfg1 (p\<lparr>ptr := ptr p + chunk_len p len\<rparr>)
            (out @ take (unat (chunk_len p len)) (buf_d p)) (len - chunk_len p len) = Inr (r1, out')"
        "get_bytes_loop cfg2 (p2\<lparr>ptr := ptr p + chunk_len p len\<rparr>)
            (out @ take (unat (chunk_len p len)) (buf_d p)) (len - chunk_len p len) = Inr (r2, out')"
        "in_step cfg1 r1 cfg2 r2" "unat (ptr r1) < sizeof_buf"
        "length out' = length (out @ take (unat (chunk_len p len)) (buf_d p))
            + unat (len - chunk_len p len)"
      by blast
    have "length out' = length out + unat len" using r(5) lout by linarith
    moreover have "get_bytes_loop cfg1 p out len = Inr (r1, out')"
      using False r(1) by (simp add: get_bytes_loop_step [OF step.hyps small])
    moreover have "get_bytes_loop cfg2 p2 out len = Inr (r2, out')"
      using False r(2)
      by (simp add: get_bytes_loop_step [of len p2, unfolded cl2 pb, OF step.hyps small])
    ultimately show ?thesis using r(3,4) by blast
  qed
qed


lemma get_chunks_in_step:
  assumes ok: "platform_ok cfg1" "platform_ok cfg2"
  shows "in_step cfg1 p1 cfg2 p2 \<Longrightarrow> unat (ptr p1) < sizeof_buf \<Longrightarrow>
    \<exists>p1' p2' out. get_chunks cfg1 p1 lens = Inr (p1', out)
        \<and> get_chunks cfg2 p2 lens = Inr (p2', out)
        \<and> length out = sum_list (map unat lens)"
proof (induction lens arbitrary: p1 p2)
  case Nil
  then show ?case by simp
next
  case (Cons len lens)
  from get_bytes_loop_in_step [OF ok Cons.prems, of "[]" len] obtain q1 q2 out where
    q: "falcon_prng_get_bytes cfg1 p1 len = Inr (q1, out)"
      "falcon_prng_get_bytes cfg2 p2 len = Inr (q2, out)"
      "in_step cfg1 q1 cfg2 q2" "unat (ptr q1) < sizeof_buf" "length out = unat len"
    by (auto simp: falcon_prng_get_bytes_def)
  from Cons.IH [OF q(3,4)] obtain r1 r2 outs where
    "get_chunks cfg1 q1 lens = Inr (r1, outs)" "get_chunks cfg2 q2 lens = Inr (r2, outs)"
    "length outs = sum_list (map unat lens)"
    by blast
  with q show ?case by simp
qed

lemma init_in_step:
  assumes ok: "platform_ok cfg1" "platform_ok cfg2" "prng_ok p1" "prng_ok p2"
  shows "\<exists>q1 q2 src'. falcon_prng_init cfg1 p1 src 0 = Inr (PRNG_CHACHA20, q1, src')
        \<and> falcon_prng_init cfg2 p2 src 0 = Inr (PRNG_CHACHA20, q2, src')
        \<and> in_step cfg1 q1 cfg2 q2 \<and> ptr q1 = 0"
proof -
  define tmp where "tmp = map src [0..<56]"
  define a1 where "a1 = p1\<lparr>state_d := (if FALCON_LE_U cfg1 then memcpy_at (state_d p1) 0 tmp
                     else normalize_state (big_endian cfg1) tmp (state_d p1)),
                   type := PRNG_CHACHA20\<rparr>"
  define a2 where "a2 = p2\<lparr>state_d := (if FALCON_LE_U cfg2 then memcpy_at (state_d p2) 0 tmp
                     else normalize_state (big_endian cfg2) tmp (state_d p2)),
                   type := PRNG_CHACHA20\<rparr>"
  have ltmp: "length tmp = 56" by (simp add: tmp_def)
  have len: "length (state_d p1) = 56" "length (state_d p2) = 56"
    and lbuf: "length (buf_d p1) = sizeof_buf" "length (buf_d p2) = sizeof_buf"
    using ok(3,4) by (simp_all add: prng_ok_def)
  note v1 = init_views [OF ok(1) ltmp len(1), folded a1_def]
    and v2 = init_views [OF ok(2) ltmp len(2), folded a2_def]
  have kn: "key_words cfg1 a1 = key_words cfg2 a2 \<and> nonce_words cfg1 a1 = nonce_words cfg2 a2"
    using v1(1) v2(1) by (metis append_eq_append_conv length_key_words)
  have ss: "same_state cfg1 a1 cfg2 a2"
    using kn v1(2) v2(2) by (simp add: same_state_def) (simp add: a1_def a2_def)
  have oks: "prng_ok a1" "prng_ok a2" "type a1 = PRNG_CHACHA20"
    using v1(3) v2(3) lbuf by (simp_all add: prng_ok_def) (simp_all add: a1_def a2_def)
  from refill_in_step [OF ok(1,2) oks ss] obtain q1 q2 where
    q: "falcon_prng_refill cfg1 a1 = Inr q1" "falcon_prng_refill cfg2 a2 = Inr q2"
      "in_step cfg1 q1 cfg2 q2" "ptr q1 = 0"
    by blast
  have "falcon_prng_init cfg1 p1 src 0 = Inr (PRNG_CHACHA20, q1, \<lambda>i. src (56 + i))"
    using q(1) unfolding a1_def tmp_def
    by (simp add: falcon_prng_init_default falcon_prng_init_chacha20 falcon_prng_refill_def)
  moreover have "falcon_prng_init cfg2 p2 src 0 = Inr (PRNG_CHACHA20, q2, \<lambda>i. src (56 + i))"
    using q(2) unfolding a2_def tmp_def
    by (simp add: falcon_prng_init_default falcon_prng_init_chacha20 falcon_prng_refill_def)
  ultimately show ?thesis using q(3,4) by blast
qed


section \<open>The first block of the all-zero state\<close>

text \<open>
  Evaluation on numerals: sums and shifts of 32-bit numerals are reduced modulo \<open>2 ^ 32\<close>
  after each statement.
\<close>

lemma add_at_numeral: "add_at a b st = st[a := take_bit 32 (st ! a + st ! b)]"
  by (simp add: add_at_def take_bit_word_eq_self)

lemma add_val_at_numeral: "add_val_at a v st = st[a := take_bit 32 (st ! a + v)]"
  by (simp add: add_val_at_def take_bit_word_eq_self)

lemma shl_or_shr_at_numeral:
  "shl_or_shr_at a l r st = st[a := take_bit 32 (push_bit l (st ! a) OR drop_bit r (st ! a))]"
  by (simp add: shl_or_shr_at_def take_bit_word_eq_self)

lemma funpow_10: "(f ^^ 10) x = f (f (f (f (f (f (f (f (f (f x)))))))))"
  by (simp add: eval_nat_numeral)

lemma load_state_zero:
  "load_state False (replicate 56 0) 0
   = [0x61707865, 0x3320646e, 0x79622d32, 0x6b206574, 0, 0, 0, 0, 0, 0, 0, 0, 0, 0, 0, 0]"
  by (simp add: load_state_def run_def xor_val_at_def CW_def load32_def native_def dec32le_def
      upt_12)

lemma rounds_zero:
  "(rounds_body ^^ 10)
     [0x61707865, 0x3320646e, 0x79622d32, 0x6b206574, 0, 0, 0, 0, 0, 0, 0, 0, 0, 0, 0, 0]
   = [1282424849, 1562217778, 1812475918, 3181191391, 3088700093, 451775904, 3438229160,
      3339548555, 2086224346, 2370328401, 1071654007, 927652024, 4105716586, 480319509,
      1773569987, 2254827186]"
  by (simp add: funpow_10 rounds_body_def QROUND_def run_def add_at_numeral xor_at_def
      shl_or_shr_at_numeral)

lemma block_words_zero:
  "block_words False (replicate 56 0) 0
   = [2917185654, 2419978656, 3848953152, 683509331, 3088700093, 451775904, 3438229160,
      3339548555, 2086224346, 2370328401, 1071654007, 927652024, 4105716586, 480319509,
      1773569987, 2254827186]"
  by (simp add: block_words_def load_state_zero rounds_zero)
    (simp add: add_back_def run_def add_val_at_numeral CW_def load32_def native_def dec32le_def
      upt_4 upt_4_14)


lemma take_2_parts:
  assumes "take 2 xs = [a, b]"
  shows "take (Suc 0) xs = [a] \<and> xs ! Suc 0 = b"
proof (cases xs)
  case Nil
  with assms show ?thesis by simp
next
  case (Cons x ys)
  with assms show ?thesis by (cases ys) (simp_all add: eval_nat_numeral)
qed

lemma zero_bytes: "map zero_src [0..<56] = replicate 56 0"
  by (simp add: zero_src_def map_replicate_const)

lemma init_zero:
  "\<exists>p0. falcon_prng_init enclave_build blank zero_src 0 = Inr (PRNG_CHACHA20, p0, zero_src)
      \<and> ptr p0 = 0 \<and> length (buf_d p0) = sizeof_buf \<and> take 2 (buf_d p0) = [0x76, 0xb8]"
proof -
  define a where "a = blank\<lparr>state_d := replicate 56 0, type := PRNG_CHACHA20\<rparr>"
  define p0 where "p0 = (refill_chacha20 enclave_build a)\<lparr>ptr := 0\<rparr>"
  have ok: "prng_ok a" by (simp add: a_def prng_ok_def sizeof_buf_def)
  have be: "big_endian enclave_build = False" "FALCON_LE_U enclave_build"
    by (simp_all add: enclave_build_def)
  have c0: "counter enclave_build a = 0"
    by (simp add: counter_def a_def be load64_def native_def dec64le_def dec32le_def)
  have "falcon_prng_init enclave_build blank zero_src 0 = Inr (PRNG_CHACHA20, p0, zero_src)"
    by (simp add: falcon_prng_init_default falcon_prng_init_chacha20 be zero_bytes memcpy_at_def
        p0_def a_def) (simp add: zero_src_def)
  moreover have buf: "buf_d p0 = fst (spec_refill (key_words enclave_build a)
                                      (nonce_words enclave_build a) 0)"
    by (simp add: p0_def refill_chacha20_spec [OF builds_ok(1) ok] c0)
  moreover have "length (buf_d p0) = sizeof_buf"
    by (simp add: buf sizeof_buf_def)
  moreover have "take 2 (buf_d p0) = [0x76, 0xb8]"
  proof -
    have "spec_block (key_words enclave_build a) (nonce_words enclave_build a) 0
          = concat (map enc32le (block_words False (replicate 56 0) 0))"
      using block_words_spec [of enclave_build a 0] by (simp add: be) (simp add: a_def)
    then have "take 2 (spec_block (key_words enclave_build a) (nonce_words enclave_build a) 0)
          = [0x76, 0xb8]"
      by (simp add: block_words_zero enc32le_def)
    then show ?thesis
      by (simp add: buf spec_refill_def upt_8)
  qed
  ultimately show ?thesis by (intro exI [of _ p0]) (simp add: p0_def)
qed


section \<open>The reads of the seeding loop\<close>

lemma memcpy_at_nil [simp]: "memcpy_at buf off [] = buf"
  by (simp add: memcpy_at_def)

lemma memcpy_at_memcpy_at:
  assumes "off + length A + length B \<le> length buf"
  shows "memcpy_at (memcpy_at buf off A) (off + length A) B = memcpy_at buf off (A @ B)"
  using assms by (simp add: memcpy_at_def ac_simps)

lemma offered_0 [simp]: "offered rd k 0 = []"
  by (simp add: offered_def)

lemma offered_Suc:
  "offered rd k (Suc n) = (case rd k of Read_bytes bs \<Rightarrow> bs | _ \<Rightarrow> []) @ offered rd (Suc k) n"
  by (simp add: offered_def upt_conv_Cons del: upt_Suc)

lemma list_all_upt_Suc:
  "list_all P [k..<k + Suc n] \<longleftrightarrow> P k \<and> list_all P [Suc k..<Suc k + n]"
  by (simp add: upt_conv_Cons del: upt_Suc)

lemma urandom_read_loop_full:
  "list_all (\<lambda>i. rd i \<noteq> Read_error) [k..<k + n] \<Longrightarrow> len \<le> length (offered rd k n) \<Longrightarrow>
   off + len \<le> length buf \<Longrightarrow>
   \<exists>k'. urandom_read_loop rd k buf off len
          = Some (memcpy_at buf off (take len (offered rd k n)), 0, k')"
proof (induction n arbitrary: k buf off len)
  case 0
  then show ?case by (subst urandom_read_loop.simps) simp
next
  case (Suc n)
  from Suc.prems(1) [unfolded list_all_upt_Suc] have ne: "rd k \<noteq> Read_error"
    and rest: "list_all (\<lambda>i. rd i \<noteq> Read_error) [Suc k..<Suc k + n]"
    by blast+
  show ?case
  proof (cases "len = 0")
    case True
    then show ?thesis by (subst urandom_read_loop.simps) simp
  next
    case False
    show ?thesis
    proof (cases "rd k")
      case Read_eintr
      with Suc.prems(2) have "len \<le> length (offered rd (Suc k) n)" by (simp add: offered_Suc)
      from Suc.IH [OF rest this Suc.prems(3)] show ?thesis
        using False Read_eintr by (subst urandom_read_loop.simps) (simp add: offered_Suc)
    next
      case Read_error
      with ne show ?thesis by simp
    next
      case (Read_bytes bs)
      let ?c = "take len bs"
      have l1: "len - length ?c \<le> length (offered rd (Suc k) n)"
        using Suc.prems(2) Read_bytes by (simp add: offered_Suc)
      have l2: "off + length ?c + (len - length ?c) \<le> length (memcpy_at buf off ?c)"
        using Suc.prems(3) by simp
      have l3: "off + length ?c + length (take (len - length ?c) (offered rd (Suc k) n)) \<le> length buf"
        using Suc.prems(3) l1 by simp
      from Suc.IH [OF rest l1 l2] obtain k' where
        "urandom_read_loop rd (Suc k) (memcpy_at buf off ?c) (off + length ?c) (len - length ?c)
         = Some (memcpy_at (memcpy_at buf off ?c) (off + length ?c)
                   (take (len - length ?c) (offered rd (Suc k) n)), 0, k')"
        by blast
      then have "urandom_read_loop rd (Suc k) (memcpy_at buf off ?c) (off + length ?c)
           (len - length ?c)
         = Some (memcpy_at buf off (?c @ take (len - length ?c) (offered rd (Suc k) n)), 0, k')"
        by (simp only: memcpy_at_memcpy_at [OF l3])
      then have "urandom_read_loop rd k buf off len
         = Some (memcpy_at buf off (?c @ take (len - length ?c) (offered rd (Suc k) n)), 0, k')"
        using False Read_bytes
        by (subst urandom_read_loop.simps) simp
      moreover have "?c @ take (len - length ?c) (offered rd (Suc k) n)
                     = take len (offered rd k (Suc n))"
        using Read_bytes by (simp add: offered_Suc min_def)
      ultimately show ?thesis by auto
    qed
  qed
qed

lemma urandom_read_loop_fails:
  "rd (k + n) = Read_error \<Longrightarrow> list_all (\<lambda>i. rd i \<noteq> Read_error) [k..<k + n] \<Longrightarrow>
   length (offered rd k n) < len \<Longrightarrow> off + len \<le> length buf \<Longrightarrow>
   \<exists>buf' len' k'. urandom_read_loop rd k buf off len = Some (buf', len', k') \<and> len' \<noteq> 0
      \<and> length buf' = length buf \<and> drop (off + len) buf' = drop (off + len) buf"
proof (induction n arbitrary: k buf off len)
  case 0
  then show ?case by (subst urandom_read_loop.simps) simp
next
  case (Suc n)
  from Suc.prems(2) [unfolded list_all_upt_Suc] have ne: "rd k \<noteq> Read_error"
    and rest: "list_all (\<lambda>i. rd i \<noteq> Read_error) [Suc k..<Suc k + n]"
    by blast+
  have err: "rd (Suc k + n) = Read_error" using Suc.prems(1) by simp
  have pos: "0 < len" using Suc.prems(3) by simp
  show ?case
  proof (cases "rd k")
    case Read_eintr
    with Suc.prems(3) have "length (offered rd (Suc k) n) < len" by (simp add: offered_Suc)
    from Suc.IH [OF err rest this Suc.prems(4)] show ?thesis
      using pos Read_eintr by (subst urandom_read_loop.simps) simp
  next
    case Read_error
    with ne show ?thesis by simp
  next
    case (Read_bytes bs)
    let ?c = "take len bs"
    have short: "length bs < len" using Suc.prems(3) Read_bytes by (simp add: offered_Suc)
    have l1: "length (offered rd (Suc k) n) < len - length ?c"
      using Suc.prems(3) Read_bytes by (simp add: offered_Suc)
    have l2: "off + length ?c + (len - length ?c) \<le> length (memcpy_at buf off ?c)"
      using Suc.prems(4) by simp
    have l3: "off + length ?c + (len - length ?c) = off + len" using short by simp
    have l4: "drop (off + len) (memcpy_at buf off ?c) = drop (off + len) buf"
      using Suc.prems(4) short by (intro take_drop_memcpy_at_above) simp_all
    have l5: "length (memcpy_at buf off ?c) = length buf"
      using Suc.prems(4) short by simp
    from Suc.IH [OF err rest l1 l2] obtain buf' len' k' where
      "urandom_read_loop rd (Suc k) (memcpy_at buf off ?c) (off + length ?c) (len - length ?c)
         = Some (buf', len', k')" "len' \<noteq> 0" "length buf' = length buf"
      "drop (off + len) buf' = drop (off + len) buf"
      unfolding l3 l4 l5 by blast
    then show ?thesis
      using pos Read_bytes by (subst urandom_read_loop.simps) simp
  qed
qed


lemma urandom_get_seed_full:
  assumes "0 < len" "len \<le> length seed" "urandom_full sys len n"
  shows "urandom_get_seed sys seed len
         = Some (1, take len (offered (reads sys) 0 n) @ drop len seed)"
proof -
  from assms(3) have f: "open_ok sys" "list_all (\<lambda>i. reads sys i \<noteq> Read_error) [0..<0 + n]"
    "len \<le> length (offered (reads sys) 0 n)"
    by (simp_all add: urandom_full_def)
  from urandom_read_loop_full [OF f(2,3), of 0 seed] assms(2) obtain k' where
    "urandom_read_loop (reads sys) 0 seed 0 len
       = Some (memcpy_at seed 0 (take len (offered (reads sys) 0 n)), 0, k')"
    by auto
  then show ?thesis
    using assms(1) f(1,3) by (simp add: urandom_get_seed_def memcpy_at_def)
qed

lemma urandom_get_seed_fails:
  assumes "0 < len" "len \<le> length seed" "urandom_fails sys len n"
  shows "\<exists>s. urandom_get_seed sys seed len = Some (0, s) \<and> length s = length seed
              \<and> drop len s = drop len seed"
proof (cases "open_ok sys")
  case False
  then show ?thesis using assms(1) by (simp add: urandom_get_seed_def)
next
  case True
  with assms(3) have f: "reads sys (0 + n) = Read_error"
    "list_all (\<lambda>i. reads sys i \<noteq> Read_error) [0..<0 + n]"
    "length (offered (reads sys) 0 n) < len"
    by (simp_all add: urandom_fails_def)
  from urandom_read_loop_fails [OF f, of 0 seed] assms(2) obtain buf' len' k' where
    "urandom_read_loop (reads sys) 0 seed 0 len = Some (buf', len', k')" "len' \<noteq> 0"
    "length buf' = length seed" "drop len buf' = drop len seed"
    by auto
  then show ?thesis
    using assms(1) True by (simp add: urandom_get_seed_def)
qed

lemma later_sources:
  assumes "length s = length seed" "drop len s = drop len seed" "len \<le> length seed"
    "services_ok sys len" "USE_WIN32_RAND cfg \<longrightarrow> len < 2 ^ 32"
  shows "case later_source cfg sys len of
           Some bs \<Rightarrow>
             (case (if USE_WIN32_RAND cfg then win32_get_seed sys s len else (0, s)) of
                (r2, seed2) \<Rightarrow>
                  if r2 \<noteq> 0 then Some (1 :: int, seed2)
                  else (case (if macro_true (USE_SGX cfg) then sgx_get_seed sys seed2 len
                              else (0, seed2)) of
                          (r3, seed3) \<Rightarrow> if r3 \<noteq> 0 then Some (1, seed3) else Some (0, seed3)))
             = Some (1, bs @ drop len seed)
         | None \<Rightarrow>
             (case (if USE_WIN32_RAND cfg then win32_get_seed sys s len else (0, s)) of
                (r2, seed2) \<Rightarrow>
                  if r2 \<noteq> 0 then Some (1 :: int, seed2)
                  else (case (if macro_true (USE_SGX cfg) then sgx_get_seed sys seed2 len
                              else (0, seed2)) of
                          (r3, seed3) \<Rightarrow> if r3 \<noteq> 0 then Some (1, seed3) else Some (0, seed3)))
             = Some (0, s)"
  using assms
  by (auto simp: later_source_def win32_get_seed_def sgx_get_seed_def services_ok_def
      memcpy_at_def split: option.splits)

lemma offered_eintr: "rd k = Read_eintr \<Longrightarrow> offered rd k (Suc n) = offered rd (Suc k) n"
  by (simp add: offered_Suc)

lemma offered_bytes: "rd k = Read_bytes bs \<Longrightarrow> offered rd k (Suc n) = bs @ offered rd (Suc k) n"
  by (simp add: offered_Suc)

lemma urandom_read_loop_returns:
  assumes "urandom_read_loop rd k buf off len = Some res"
  shows "\<exists>n. list_all (\<lambda>i. rd i \<noteq> Read_error) [k..<k + n]
           \<and> (if fst (snd res) = 0 then len \<le> length (offered rd k n)
               else rd (k + n) = Read_error \<and> length (offered rd k n) < len)"
proof (rule urandom_read_loop.raw_induct [where P = "\<lambda>rd k buf off len res.
      \<exists>n. list_all (\<lambda>i. rd i \<noteq> Read_error) [k..<k + n]
           \<and> (if fst (snd res) = 0 then len \<le> length (offered rd k n)
               else rd (k + n) = Read_error \<and> length (offered rd k n) < len)", OF _ assms],
    goal_cases)
  case (1 loop rd k buf off len res)
  show ?case
  proof (cases "len = 0")
    case True
    with 1(2) show ?thesis by (intro exI [of _ 0]) auto
  next
    case False
    show ?thesis
    proof (cases "rd k")
      case Read_error
      with False 1(2) show ?thesis by (intro exI [of _ 0]) auto
    next
      case Read_eintr
      with False 1(2) have "loop rd (Suc k) buf off len = Some res" by simp
      from 1(1) [OF this] obtain n where
        n: "list_all (\<lambda>i. rd i \<noteq> Read_error) [Suc k..<Suc k + n]"
          "if fst (snd res) = 0 then len \<le> length (offered rd (Suc k) n)
           else rd (Suc k + n) = Read_error \<and> length (offered rd (Suc k) n) < len"
        by blast
      have "list_all (\<lambda>i. rd i \<noteq> Read_error) [k..<k + Suc n]"
        unfolding list_all_upt_Suc using n(1) Read_eintr by simp
      moreover have "if fst (snd res) = 0 then len \<le> length (offered rd k (Suc n))
           else rd (k + Suc n) = Read_error \<and> length (offered rd k (Suc n)) < len"
        using n(2) Read_eintr by (auto simp: offered_eintr split: if_splits)
      ultimately show ?thesis by blast
    next
      case (Read_bytes bs)
      with False 1(2) have "loop rd (Suc k) (memcpy_at buf off (take len bs))
               (off + length (take len bs)) (len - length (take len bs)) = Some res" by simp
      from 1(1) [OF this] obtain n where
        n: "list_all (\<lambda>i. rd i \<noteq> Read_error) [Suc k..<Suc k + n]"
          "if fst (snd res) = 0 then len - length (take len bs) \<le> length (offered rd (Suc k) n)
           else rd (Suc k + n) = Read_error
                \<and> length (offered rd (Suc k) n) < len - length (take len bs)"
        by blast
      have "list_all (\<lambda>i. rd i \<noteq> Read_error) [k..<k + Suc n]"
        unfolding list_all_upt_Suc using n(1) Read_bytes by simp
      moreover have "if fst (snd res) = 0 then len \<le> length (offered rd k (Suc n))
           else rd (k + Suc n) = Read_error \<and> length (offered rd k (Suc n)) < len"
        using n(2) Read_bytes by (auto simp: offered_bytes split: if_splits)
      ultimately show ?thesis by blast
    qed
  qed
qed

lemma urandom_get_seed_returns:
  assumes "urandom_get_seed sys seed len = Some (r, s)" "0 < len"
  shows "\<exists>n. if r \<noteq> 0 then urandom_full sys len n else urandom_fails sys len n"
proof (cases "open_ok sys")
  case False
  with assms show ?thesis by (auto simp: urandom_get_seed_def urandom_fails_def)
next
  case True
  with assms obtain res where
    res: "urandom_read_loop (reads sys) 0 seed 0 len = Some res"
      "r = (if fst (snd res) = 0 then 1 else 0)"
    by (auto simp: urandom_get_seed_def split: option.splits)
  from urandom_read_loop_returns [OF res(1)] obtain n where
    "list_all (\<lambda>i. reads sys i \<noteq> Read_error) [0..<0 + n]"
    "if fst (snd res) = 0 then len \<le> length (offered (reads sys) 0 n)
     else reads sys (0 + n) = Read_error \<and> length (offered (reads sys) 0 n) < len"
    by blast
  with True res(2) show ?thesis
    by (intro exI [of _ n]) (auto simp: urandom_full_def urandom_fails_def split: if_splits)
qed

text \<open>
  What \<^verbatim>\<open>falcon_get_seed\<close> does, by the behaviour of the platform. With the urandom source
  compiled in, a request for 0 bytes returns 1 at once; if the device opens and its reads,
  repeated after short reads and after \<^verbatim>\<open>EINTR\<close>, hand out \<open>len\<close> bytes before one of them fails
  otherwise, the call returns 1 with these bytes. If the device is not compiled in, does
  not open, or a read fails before \<open>len\<close> bytes have arrived, and the two services keep their
  contract for a length that fits their parameter, the call returns 1 with the bytes of the
  first later source that reports success and 0 if there is none. A call that returns has
  seen the device deliver or fail.
\<close>

lemma falcon_get_seed_sources:
  "(USE_URANDOM cfg \<longrightarrow> falcon_get_seed cfg sys seed 0 = Some (1, seed))
   \<and> (USE_URANDOM cfg \<longrightarrow> 0 < len \<longrightarrow> len \<le> length seed \<longrightarrow> urandom_full sys len n \<longrightarrow>
        falcon_get_seed cfg sys seed len
          = Some (1, take len (offered (reads sys) 0 n) @ drop len seed))
   \<and> (\<not> USE_URANDOM cfg \<or> (0 < len \<and> urandom_fails sys len n) \<longrightarrow>
        len \<le> length seed \<longrightarrow> services_ok sys len \<longrightarrow>
        (USE_WIN32_RAND cfg \<longrightarrow> len < 2 ^ 32) \<longrightarrow>
        (case later_source cfg sys len of
           Some bs \<Rightarrow> falcon_get_seed cfg sys seed len = Some (1, bs @ drop len seed)
         | None \<Rightarrow> (\<exists>s. falcon_get_seed cfg sys seed len = Some (0, s))))
   \<and> (USE_URANDOM cfg \<longrightarrow> 0 < len \<longrightarrow> falcon_get_seed cfg sys seed len = Some (r, s) \<longrightarrow>
        (\<exists>m. urandom_full sys len m \<or> urandom_fails sys len m))"
proof (intro conjI impI)
  assume "USE_URANDOM cfg"
  then show "falcon_get_seed cfg sys seed 0 = Some (1, seed)"
    by (simp add: falcon_get_seed_def urandom_get_seed_def)
next
  assume "USE_URANDOM cfg" "0 < len" "len \<le> length seed" "urandom_full sys len n"
  then show "falcon_get_seed cfg sys seed len
          = Some (1, take len (offered (reads sys) 0 n) @ drop len seed)"
    by (simp add: falcon_get_seed_def urandom_get_seed_full)
next
  assume a: "\<not> USE_URANDOM cfg \<or> (0 < len \<and> urandom_fails sys len n)"
    and l: "len \<le> length seed" and ok: "services_ok sys len"
    and dw: "USE_WIN32_RAND cfg \<longrightarrow> len < 2 ^ 32"
  have "\<exists>s. (if USE_URANDOM cfg then urandom_get_seed sys seed len else Some (0, seed))
              = Some (0, s) \<and> length s = length seed \<and> drop len s = drop len seed"
  proof (cases "USE_URANDOM cfg")
    case False
    then show ?thesis by simp
  next
    case True
    with a have "0 < len" "urandom_fails sys len n" by simp_all
    from urandom_get_seed_fails [OF this(1) l this(2)] True show ?thesis by simp
  qed
  then obtain s where
    s: "(if USE_URANDOM cfg then urandom_get_seed sys seed len else Some (0, seed)) = Some (0, s)"
      "length s = length seed" "drop len s = drop len seed"
    by blast
  define X where "X =
     (case (if USE_WIN32_RAND cfg then win32_get_seed sys s len else (0, s)) of
        (r2, seed2) \<Rightarrow>
          if r2 \<noteq> 0 then Some (1 :: int, seed2)
          else (case (if macro_true (USE_SGX cfg) then sgx_get_seed sys seed2 len
                      else (0, seed2)) of
                  (r3, seed3) \<Rightarrow> if r3 \<noteq> 0 then Some (1, seed3) else Some (0, seed3)))"
  have fg: "falcon_get_seed cfg sys seed len = X"
    unfolding X_def falcon_get_seed_def s(1) by simp
  note ls = later_sources [OF s(2,3) l ok dw, folded X_def]
  show "case later_source cfg sys len of
           Some bs \<Rightarrow> falcon_get_seed cfg sys seed len = Some (1, bs @ drop len seed)
         | None \<Rightarrow> (\<exists>s. falcon_get_seed cfg sys seed len = Some (0, s))"
  proof (cases "later_source cfg sys len")
    case None
    with ls have "X = Some (0, s)" by simp
    then show ?thesis using None by (simp add: fg)
  next
    case (Some bs)
    with ls have "X = Some (1, bs @ drop len seed)" by simp
    then show ?thesis using Some by (simp add: fg)
  qed
next
  assume u: "USE_URANDOM cfg" "0 < len" and g: "falcon_get_seed cfg sys seed len = Some (r, s)"
  from g u(1) obtain r1 s1 where "urandom_get_seed sys seed len = Some (r1, s1)"
    by (auto simp: falcon_get_seed_def split: option.splits)
  from urandom_get_seed_returns [OF this u(2)]
  show "\<exists>m. urandom_full sys len m \<or> urandom_fails sys len m"
    by (auto split: if_splits)
qed

lemma falcon_get_seed_sources_example:
  "falcon_get_seed both_build patient_os [9, 9, 9, 9, 9, 9] 0 = Some (1, [9, 9, 9, 9, 9, 9])
   \<and> urandom_full patient_os 4 3
   \<and> falcon_get_seed both_build patient_os [9, 9, 9, 9, 9, 9] 4 = Some (1, [1, 2, 3, 4, 9, 9])
   \<and> urandom_fails broken_os 4 2 \<and> services_ok broken_os 4
   \<and> falcon_get_seed both_build broken_os [9, 9, 9, 9, 9, 9] 4
       = Some (1, [0x5a, 0x5a, 0x5a, 0x5a, 9, 9])
   \<and> (\<exists>s. falcon_get_seed portable_build broken_os [9, 9, 9, 9, 9, 9] 4 = Some (0, s))
   \<and> (\<exists>m. urandom_full patient_os 4 m \<or> urandom_fails patient_os 4 m)"
proof -
  have f: "urandom_full patient_os 4 3"
    by (simp add: urandom_full_def patient_os_def offered_def upt_rec)
  have g: "urandom_fails broken_os 4 2" "services_ok broken_os 4"
    by (simp_all add: urandom_fails_def services_ok_def broken_os_def offered_def upt_rec)
  have b: "USE_URANDOM both_build" "USE_URANDOM portable_build"
    by (simp_all add: both_build_def portable_build_def)
  have r: "replicate 4 (0x5a :: byte) = [0x5a, 0x5a, 0x5a, 0x5a]"
    by (simp add: eval_nat_numeral)
  have l: "later_source both_build broken_os 4 = Some [0x5a, 0x5a, 0x5a, 0x5a]"
    "later_source portable_build broken_os 4 = None"
    by (simp_all add: later_source_def both_build_def portable_build_def broken_os_def
        macro_true_def r)
  have o: "take 4 (offered (reads patient_os) 0 3) = [1, 2, 3, 4]"
    by (simp add: patient_os_def offered_def upt_rec)
  from falcon_get_seed_sources
      [of both_build patient_os "[9, 9, 9, 9, 9, 9]" 4 3 1 "[1, 2, 3, 4, 9, 9]"]
    falcon_get_seed_sources [of both_build broken_os "[9, 9, 9, 9, 9, 9]" 4 2]
    falcon_get_seed_sources [of portable_build broken_os "[9, 9, 9, 9, 9, 9]" 4 2]
  show ?thesis
    by (simp add: f g b l o)
qed

text \<open>Reads that hand out nothing and never fail keep the loop of the device going.\<close>

lemma offered_nothing: "offered (\<lambda>k. Read_bytes []) k n = []"
  by (simp add: offered_def)

lemma urandom_read_loop_stalls:
  "0 < len \<Longrightarrow> urandom_read_loop (\<lambda>k. Read_bytes []) k buf off len = None"
proof (rule ccontr)
  assume pos: "0 < len" and "urandom_read_loop (\<lambda>k. Read_bytes []) k buf off len \<noteq> None"
  then obtain res where "urandom_read_loop (\<lambda>k. Read_bytes []) k buf off len = Some res"
    by blast
  from urandom_read_loop_returns [OF this] pos show False
    by (auto simp: offered_nothing split: if_splits)
qed

section \<open>The refill (C3, C4)\<close>

text \<open>
  C3. For a generator of the ChaCha20 variant, one refill fills the buffer with eight
  consecutive 64-byte blocks, each the little-endian serialisation of the ten double
  rounds of the input words (constants, key, nonce with the counter's halves XORed into
  its last two words) plus those input words, with the counter one higher from block to
  block; afterwards the counter field holds the counter after the eighth block and the
  cursor is 0.
\<close>

theorem refill_produces_spec_blocks:
  assumes "type p = PRNG_CHACHA20" "prng_ok p" "platform_ok cfg"
  shows "\<exists>p'. falcon_prng_refill cfg p = Inr p'
           \<and> (buf_d p', counter cfg p')
               = spec_refill (key_words cfg p) (nonce_words cfg p) (counter cfg p)
           \<and> key_words cfg p' = key_words cfg p \<and> nonce_words cfg p' = nonce_words cfg p
           \<and> ptr p' = 0 \<and> type p' = type p"
proof -
  define p' where "p' = (refill_chacha20 cfg p)\<lparr>ptr := 0\<rparr>"
  have len: "length (state_d p) = 56" using assms(2) by (simp add: prng_ok_def)
  have sd: "state_d p' = store64 (big_endian cfg) (state_d p) 48 (counter cfg p + 8)"
    and buf: "buf_d p' = fst (spec_refill (key_words cfg p) (nonce_words cfg p) (counter cfg p))"
    and rest: "ptr p' = 0" "type p' = type p"
    using assms by (simp_all add: p'_def refill_chacha20_spec)
  have "falcon_prng_refill cfg p = Inr p'"
    using assms(1) by (simp add: falcon_prng_refill_def p'_def)
  moreover have "(buf_d p', counter cfg p')
      = spec_refill (key_words cfg p) (nonce_words cfg p) (counter cfg p)"
    using views_store64(3) [OF len sd] by (simp add: buf spec_refill_def)
  ultimately show ?thesis
    using views_store64(1,2) [OF len sd] rest by (intro exI [of _ p']) simp
qed

theorem refill_produces_spec_blocks_witness:
  "\<exists>p'. falcon_prng_refill enclave_build (blank\<lparr>type := PRNG_CHACHA20\<rparr>) = Inr p'
       \<and> (buf_d p', counter enclave_build p')
           = spec_refill (key_words enclave_build (blank\<lparr>type := PRNG_CHACHA20\<rparr>))
               (nonce_words enclave_build (blank\<lparr>type := PRNG_CHACHA20\<rparr>))
               (counter enclave_build (blank\<lparr>type := PRNG_CHACHA20\<rparr>))
       \<and> key_words enclave_build p' = key_words enclave_build (blank\<lparr>type := PRNG_CHACHA20\<rparr>)
       \<and> nonce_words enclave_build p' = nonce_words enclave_build (blank\<lparr>type := PRNG_CHACHA20\<rparr>)
       \<and> ptr p' = 0 \<and> type p' = type (blank\<lparr>type := PRNG_CHACHA20\<rparr>)"
proof -
  have "type (blank\<lparr>type := PRNG_CHACHA20\<rparr>) = PRNG_CHACHA20" by simp
  then show ?thesis
    by (rule refill_produces_spec_blocks [OF _ blank_ok(1) builds_ok(1)])
qed

text \<open>
  C4. After \<open>N\<close> refills of a generator of the ChaCha20 variant the 64-bit counter is its
  initial value plus \<open>8 * N\<close>, modulo \<open>2 ^ 64\<close>.
\<close>

theorem counter_after_refills:
  assumes "type p = PRNG_CHACHA20" "length (state_d p) = 56"
  shows "\<exists>p'. refills cfg N p = Inr p'
           \<and> unat (counter cfg p') = (unat (counter cfg p) + 8 * N) mod 2 ^ 64"
proof -
  from refills_counter [OF assms, of cfg N] obtain p' where
    p': "refills cfg N p = Inr p'" "counter cfg p' = counter cfg p + 8 * word_of_nat N"
    by blast
  have "unat (counter cfg p + 8 * word_of_nat N) = (unat (counter cfg p) + 8 * N) mod 2 ^ 64"
    by (simp add: unat_word_ariths unat_of_nat mod_simps)
  with p' show ?thesis by auto
qed

theorem counter_after_refills_witness:
  "\<exists>p'. refills portable_build 3 (blank\<lparr>type := PRNG_CHACHA20\<rparr>) = Inr p'
       \<and> unat (counter portable_build p') = 24"
proof -
  have c0: "counter portable_build (blank\<lparr>type := PRNG_CHACHA20\<rparr>) = 0"
    by (simp add: counter_def blank_def load64_def dec64le_def dec32le_def native_def)
  have "type (blank\<lparr>type := PRNG_CHACHA20\<rparr>) = PRNG_CHACHA20"
    and "length (state_d (blank\<lparr>type := PRNG_CHACHA20\<rparr>)) = 56"
    by (simp_all add: blank_def)
  from counter_after_refills [OF this, of portable_build 3] show ?thesis
    by (simp add: c0)
qed

section \<open>The extraction loop (C9, C10, C8)\<close>

text \<open>
  C9. A call of \<^verbatim>\<open>falcon_prng_get_bytes\<close> with length 0 returns at once: nothing is
  delivered and the instance (buffer, cursor, state, counter, tag) is the one passed in,
  so no refill has taken place.
\<close>

theorem get_bytes_zero_is_noop: "falcon_prng_get_bytes cfg p 0 = Inr (p, [])"
  by (simp add: falcon_prng_get_bytes_def get_bytes_loop_0)

text \<open>
  C10. After a successful \<^verbatim>\<open>falcon_prng_init\<close>, after every \<^verbatim>\<open>falcon_prng_refill\<close> and
  after every \<^verbatim>\<open>falcon_prng_get_bytes\<close> on an instance whose cursor is inside the buffer,
  the cursor is strictly below the buffer's length.
\<close>

theorem cursor_below_buffer_end:
  "(falcon_prng_init cfg p src t = Inr (r, p1, src') \<longrightarrow> r \<noteq> 0 \<longrightarrow> unat (ptr p1) < sizeof_buf)
   \<and> (falcon_prng_refill cfg p = Inr p2 \<longrightarrow> unat (ptr p2) < sizeof_buf)
   \<and> (unat (ptr p) < sizeof_buf \<longrightarrow> falcon_prng_get_bytes cfg p len = Inr (p3, out)
        \<longrightarrow> unat (ptr p3) < sizeof_buf)"
proof (intro conjI impI)
  assume "falcon_prng_init cfg p src t = Inr (r, p1, src')" "r \<noteq> 0"
  then have "ptr p1 = 0" by (rule falcon_prng_init_ptr)
  then show "unat (ptr p1) < sizeof_buf" by (simp add: sizeof_buf_def)
next
  assume "falcon_prng_refill cfg p = Inr p2"
  then have "ptr p2 = 0" by (rule falcon_prng_refill_ptr)
  then show "unat (ptr p2) < sizeof_buf" by (simp add: sizeof_buf_def)
next
  assume "unat (ptr p) < sizeof_buf" "falcon_prng_get_bytes cfg p len = Inr (p3, out)"
  then show "unat (ptr p3) < sizeof_buf"
    using get_bytes_loop_ptr [of p len cfg "[]" p3 out]
    by (simp add: falcon_prng_get_bytes_def)
qed

theorem cursor_below_buffer_end_witness:
  "(\<exists>r p1 src'. falcon_prng_init enclave_build blank zero_src 0 = Inr (r, p1, src') \<and> r \<noteq> 0
       \<and> unat (ptr p1) < sizeof_buf)
   \<and> (\<exists>p2. falcon_prng_refill enclave_build (blank\<lparr>ptr := 7, type := PRNG_CHACHA20\<rparr>) = Inr p2
       \<and> unat (ptr p2) < sizeof_buf)
   \<and> (\<exists>p3 out. falcon_prng_get_bytes enclave_build (blank\<lparr>ptr := 509\<rparr>) 2 = Inr (p3, out)
       \<and> unat (ptr (blank\<lparr>ptr := 509\<rparr>)) < sizeof_buf \<and> unat (ptr p3) < sizeof_buf)"
proof (intro conjI)
  obtain p1 src' where
    i: "falcon_prng_init enclave_build blank zero_src 0 = Inr (PRNG_CHACHA20, p1, src')"
    by (simp add: falcon_prng_init_default falcon_prng_init_chacha20)
  with cursor_below_buffer_end [of enclave_build blank zero_src 0 PRNG_CHACHA20 p1 src']
  show "\<exists>r p1 src'. falcon_prng_init enclave_build blank zero_src 0 = Inr (r, p1, src') \<and> r \<noteq> 0
       \<and> unat (ptr p1) < sizeof_buf"
    by (auto simp: PRNG_CHACHA20_def)
next
  obtain p2 where
    r: "falcon_prng_refill enclave_build (blank\<lparr>ptr := 7, type := PRNG_CHACHA20\<rparr>) = Inr p2"
    by (simp add: falcon_prng_refill_def)
  with cursor_below_buffer_end [of enclave_build "blank\<lparr>ptr := 7, type := PRNG_CHACHA20\<rparr>" _ _ _ _ _ p2]
  show "\<exists>p2. falcon_prng_refill enclave_build (blank\<lparr>ptr := 7, type := PRNG_CHACHA20\<rparr>) = Inr p2
       \<and> unat (ptr p2) < sizeof_buf"
    by auto
next
  have g: "falcon_prng_get_bytes enclave_build (blank\<lparr>ptr := 509\<rparr>) 2
           = Inr (blank\<lparr>ptr := 511\<rparr>, replicate 2 0)"
    by (simp add: falcon_prng_get_bytes_def get_bytes_loop_within sizeof_buf_def)
  have "unat (ptr (blank\<lparr>ptr := 509\<rparr>)) < sizeof_buf" by (simp add: sizeof_buf_def)
  with g cursor_below_buffer_end [of enclave_build "blank\<lparr>ptr := 509\<rparr>" _ _ _ _ _ _ 2
      "blank\<lparr>ptr := 511\<rparr>" "replicate 2 0"]
  show "\<exists>p3 out. falcon_prng_get_bytes enclave_build (blank\<lparr>ptr := 509\<rparr>) 2 = Inr (p3, out)
       \<and> unat (ptr (blank\<lparr>ptr := 509\<rparr>)) < sizeof_buf \<and> unat (ptr p3) < sizeof_buf"
    by auto
qed

text \<open>
  C8, as the code has it. For an instance whose tag is not the ChaCha20 variant, in a build
  with the abort check (neither \<^verbatim>\<open>USE_SGX\<close> nor \<^verbatim>\<open>NDEBUG\<close> defined), \<^verbatim>\<open>falcon_prng_refill\<close> aborts, and so does a
  \<^verbatim>\<open>falcon_prng_get_bytes\<close> call whose request reaches the end of the buffer: it returns no
  bytes. A call served from the bytes before the end of the buffer does not look at the
  tag and delivers \<open>len\<close> bytes, in every build.
\<close>

theorem invalid_tag_aborts_at_refill_only:
  "(type p \<noteq> PRNG_CHACHA20 \<longrightarrow> USE_SGX cfg = None \<longrightarrow> \<not> NDEBUG cfg \<longrightarrow>
      falcon_prng_refill cfg p = Inl Abort
      \<and> (0 < len \<longrightarrow> unat (ptr p) \<le> sizeof_buf \<longrightarrow> sizeof_buf \<le> unat (ptr p) + unat len \<longrightarrow>
           falcon_prng_get_bytes cfg p len = Inl Abort))
   \<and> (0 < len \<longrightarrow> unat (ptr p) + unat len < sizeof_buf \<longrightarrow> length (buf_d p) = sizeof_buf \<longrightarrow>
        (\<exists>p' out. falcon_prng_get_bytes cfg p len = Inr (p', out) \<and> length out = unat len))"
proof (intro conjI impI)
  assume "type p \<noteq> PRNG_CHACHA20" "USE_SGX cfg = None" "\<not> NDEBUG cfg"
  then show "falcon_prng_refill cfg p = Inl Abort"
    by (simp add: falcon_prng_refill_def)
next
  assume t: "type p \<noteq> PRNG_CHACHA20" "USE_SGX cfg = None" "\<not> NDEBUG cfg"
    and l: "0 < len" "unat (ptr p) \<le> sizeof_buf" "sizeof_buf \<le> unat (ptr p) + unat len"
  from t have "falcon_prng_refill cfg (p\<lparr>ptr := word_of_nat sizeof_buf\<rparr>) = Inl Abort"
    by (simp add: falcon_prng_refill_def)
  then show "falcon_prng_get_bytes cfg p len = Inl Abort"
    by (simp add: falcon_prng_get_bytes_def get_bytes_loop_reaches_end [OF l])
next
  assume "0 < len" "unat (ptr p) + unat len < sizeof_buf" "length (buf_d p) = sizeof_buf"
  then show "\<exists>p' out. falcon_prng_get_bytes cfg p len = Inr (p', out) \<and> length out = unat len"
    by (simp add: falcon_prng_get_bytes_def get_bytes_loop_within)
qed

theorem invalid_tag_aborts_at_refill_only_witness:
  "type (blank\<lparr>type := 7, ptr := 510\<rparr>) \<noteq> PRNG_CHACHA20 \<and> USE_SGX portable_build = None
   \<and> \<not> NDEBUG portable_build
   \<and> falcon_prng_refill portable_build (blank\<lparr>type := 7, ptr := 510\<rparr>) = Inl Abort
   \<and> falcon_prng_get_bytes portable_build (blank\<lparr>type := 7, ptr := 510\<rparr>) 4 = Inl Abort
   \<and> (\<exists>p' out. falcon_prng_get_bytes enclave_build (blank\<lparr>type := 7, ptr := 500\<rparr>) 4 = Inr (p', out)
         \<and> length out = unat (4 :: u64))"
  using invalid_tag_aborts_at_refill_only [of "blank\<lparr>type := 7, ptr := 510\<rparr>" portable_build 4]
    invalid_tag_aborts_at_refill_only [of "blank\<lparr>type := 7, ptr := 500\<rparr>" enclave_build 4]
  by (simp add: PRNG_CHACHA20_def portable_build_def enclave_build_def sizeof_buf_def blank_def)

text \<open>
  The claim as stated fails in both builds: with the abort check compiled in, a request
  inside the buffer is served from an instance with an unknown tag; with \<^verbatim>\<open>USE_SGX\<close> defined, a
  request across the end of the buffer is served as well.
\<close>

theorem invalid_tag_delivers_bytes:
  "type (blank\<lparr>type := 7\<rparr>) \<noteq> PRNG_CHACHA20
   \<and> falcon_prng_get_bytes portable_build (blank\<lparr>type := 7\<rparr>) 4
       = Inr (blank\<lparr>type := 7, ptr := 4\<rparr>, [0, 0, 0, 0])
   \<and> falcon_prng_get_bytes enclave_build (blank\<lparr>type := 7, ptr := 510\<rparr>) 4
       = Inr (blank\<lparr>type := 7, ptr := 2\<rparr>, [0, 0, 0, 0])"
proof (intro conjI)
  show "type (blank\<lparr>type := 7\<rparr>) \<noteq> PRNG_CHACHA20"
    by (simp add: PRNG_CHACHA20_def)
  show "falcon_prng_get_bytes portable_build (blank\<lparr>type := 7\<rparr>) 4
       = Inr (blank\<lparr>type := 7, ptr := 4\<rparr>, [0, 0, 0, 0])"
    by (simp add: falcon_prng_get_bytes_def get_bytes_loop_within sizeof_buf_def)
      (simp add: blank_def eval_nat_numeral)
  have r: "falcon_prng_refill enclave_build (blank\<lparr>type := 7, ptr := 512\<rparr>)
           = Inr (blank\<lparr>type := 7, ptr := 0\<rparr>)"
    by (simp add: falcon_prng_refill_def PRNG_CHACHA20_def enclave_build_def)
  have c: "chunk_len (blank\<lparr>type := 7, ptr := 510\<rparr>) 4 = 2"
    by (simp add: chunk_len_def sizeof_buf_def)
  have "get_bytes_loop enclave_build (blank\<lparr>type := 7, ptr := 510\<rparr>) [] 4
        = get_bytes_loop enclave_build (blank\<lparr>type := 7, ptr := 0\<rparr>)
            (take 2 (buf_d blank)) 2"
    using r by (subst get_bytes_loop_reaches_end) (simp_all add: sizeof_buf_def c)
  also have "\<dots> = Inr (blank\<lparr>type := 7, ptr := 2\<rparr>, take 2 (buf_d blank) @ take 2 (buf_d blank))"
    by (subst get_bytes_loop_within) (simp_all add: sizeof_buf_def)
  finally show "falcon_prng_get_bytes enclave_build (blank\<lparr>type := 7, ptr := 510\<rparr>) 4
       = Inr (blank\<lparr>type := 7, ptr := 2\<rparr>, [0, 0, 0, 0])"
    by (simp add: falcon_prng_get_bytes_def eval_nat_numeral)
qed

section \<open>Initialisation (C5)\<close>

text \<open>
  C5. \<^verbatim>\<open>falcon_prng_init\<close> with type 0 behaves as with the ChaCha20 variant. With that
  variant it takes 56 bytes from the hash context, leaves in the state area the first
  twelve little-endian words of these bytes as key and nonce and the last two as the low
  and high half of the counter, sets the tag, performs one refill on that instance and
  returns the tag. With any other type it returns 0 and neither the hash context nor the
  instance has changed.
\<close>

theorem init_draws_56_bytes_or_fails:
  "falcon_prng_init cfg p src 0 = falcon_prng_init cfg p src PRNG_CHACHA20
   \<and> (platform_ok cfg \<longrightarrow> length (state_d p) = 56 \<longrightarrow>
        (\<exists>p1 p2. falcon_prng_init cfg p src PRNG_CHACHA20
                    = Inr (PRNG_CHACHA20, p2, snd (shake_extract src 56))
           \<and> falcon_prng_refill cfg p1 = Inr p2
           \<and> buf_d p1 = buf_d p \<and> ptr p1 = ptr p \<and> type p1 = PRNG_CHACHA20
           \<and> key_words cfg p1 @ nonce_words cfg p1 = take 12 (le_words (fst (shake_extract src 56)))
           \<and> counter cfg p1 = ucast (le_words (fst (shake_extract src 56)) ! 12)
                                + push_bit 32 (ucast (le_words (fst (shake_extract src 56)) ! 13))))
   \<and> (t \<noteq> 0 \<longrightarrow> t \<noteq> PRNG_CHACHA20 \<longrightarrow> falcon_prng_init cfg p src t = Inr (0, p, src))"
proof (intro conjI impI)
  show "falcon_prng_init cfg p src 0 = falcon_prng_init cfg p src PRNG_CHACHA20"
    by (rule falcon_prng_init_default)
next
  assume ok: "platform_ok cfg" and len: "length (state_d p) = 56"
  define tmp where "tmp = fst (shake_extract src 56)"
  define p1 where "p1 = p\<lparr>state_d := (if FALCON_LE_U cfg then memcpy_at (state_d p) 0 tmp
                     else normalize_state (big_endian cfg) tmp (state_d p)),
                   type := PRNG_CHACHA20\<rparr>"
  define p2 where "p2 = (refill_chacha20 cfg p1)\<lparr>ptr := 0\<rparr>"
  have ltmp: "length tmp = 56" by (simp add: tmp_def)
  note v = init_views [OF ok ltmp len, folded p1_def]
  have "falcon_prng_init cfg p src PRNG_CHACHA20
          = Inr (PRNG_CHACHA20, p2, snd (shake_extract src 56))"
    by (simp add: falcon_prng_init_chacha20 p2_def p1_def tmp_def shake_extract_def)
  moreover have "falcon_prng_refill cfg p1 = Inr p2"
    by (simp add: falcon_prng_refill_def p2_def p1_def)
  moreover have "buf_d p1 = buf_d p" "ptr p1 = ptr p" "type p1 = PRNG_CHACHA20"
    by (simp_all add: p1_def)
  moreover have "counter cfg p1 = ucast (le_words tmp ! 12) + push_bit 32 (ucast (le_words tmp ! 13))"
    using v(2) by (simp add: dec64le_le_words [OF ltmp])
  ultimately show "\<exists>p1 p2. falcon_prng_init cfg p src PRNG_CHACHA20
                    = Inr (PRNG_CHACHA20, p2, snd (shake_extract src 56))
           \<and> falcon_prng_refill cfg p1 = Inr p2
           \<and> buf_d p1 = buf_d p \<and> ptr p1 = ptr p \<and> type p1 = PRNG_CHACHA20
           \<and> key_words cfg p1 @ nonce_words cfg p1 = take 12 (le_words (fst (shake_extract src 56)))
           \<and> counter cfg p1 = ucast (le_words (fst (shake_extract src 56)) ! 12)
                                + push_bit 32 (ucast (le_words (fst (shake_extract src 56)) ! 13))"
    using v(1) unfolding tmp_def [symmetric] by (intro exI [of _ p1] exI [of _ p2]) simp
next
  assume "t \<noteq> 0" "t \<noteq> PRNG_CHACHA20"
  then show "falcon_prng_init cfg p src t = Inr (0, p, src)"
    by (simp add: falcon_prng_init_def)
qed


theorem init_draws_56_bytes_or_fails_witness:
  "(\<exists>p1 p2. falcon_prng_init portable_build blank counting_src 0
                = Inr (PRNG_CHACHA20, p2, snd (shake_extract counting_src 56))
       \<and> falcon_prng_refill portable_build p1 = Inr p2
       \<and> key_words portable_build p1 @ nonce_words portable_build p1 =
            [0x03020100, 0x07060504, 0x0b0a0908, 0x0f0e0d0c, 0x13121110, 0x17161514, 0x1b1a1918,
             0x1f1e1d1c, 0x23222120, 0x27262524, 0x2b2a2928, 0x2f2e2d2c]
       \<and> counter portable_build p1 = 0x3736353433323130)
   \<and> falcon_prng_init portable_build blank counting_src 5 = Inr (0, blank, counting_src)"
proof -
  have h: "platform_ok portable_build" "length (state_d blank) = 56" "(5 :: int) \<noteq> 0"
    "5 \<noteq> PRNG_CHACHA20"
    by (simp_all add: builds_ok PRNG_CHACHA20_def)
  from init_draws_56_bytes_or_fails [of portable_build blank counting_src 5] h
  show ?thesis
    by (simp add: counting_words) blast
qed

section \<open>Independence of the host (C7)\<close>

text \<open>
  C7. For the same bytes from the hash context, initialisation followed by any sequence of
  \<^verbatim>\<open>falcon_prng_get_bytes\<close> calls produces the same output bytes on every run, whatever
  the instance's memory held before and whatever the host's byte order and the setting of
  \<^verbatim>\<open>FALCON_LE_U\<close> (set on little-endian hosts only); the output has the requested length.
\<close>

theorem output_independent_of_host:
  assumes "platform_ok cfg1" "platform_ok cfg2" "prng_ok p1" "prng_ok p2"
  shows "\<exists>out. output_of_seed cfg1 p1 src lens = Inr out
           \<and> output_of_seed cfg2 p2 src lens = Inr out
           \<and> length out = sum_list (map unat lens)"
proof -
  from init_in_step [OF assms, of src] obtain q1 q2 src' where
    q: "falcon_prng_init cfg1 p1 src 0 = Inr (PRNG_CHACHA20, q1, src')"
      "falcon_prng_init cfg2 p2 src 0 = Inr (PRNG_CHACHA20, q2, src')"
      "in_step cfg1 q1 cfg2 q2" "ptr q1 = 0"
    by blast
  have "unat (ptr q1) < sizeof_buf" using q(4) by (simp add: sizeof_buf_def)
  from get_chunks_in_step [OF assms(1,2) q(3) this, of lens] obtain r1 r2 out where
    "get_chunks cfg1 q1 lens = Inr (r1, out)" "get_chunks cfg2 q2 lens = Inr (r2, out)"
    "length out = sum_list (map unat lens)"
    by blast
  with q(1,2) show ?thesis by (simp add: output_of_seed_def)
qed

theorem output_independent_of_host_witness:
  "\<exists>out. output_of_seed enclave_build blank counting_src [3, 600] = Inr out
       \<and> output_of_seed portable_build (blank\<lparr>ptr := 77\<rparr>) counting_src [3, 600] = Inr out
       \<and> length out = 603"
proof -
  have "prng_ok (blank\<lparr>ptr := 77\<rparr>)" by (simp add: prng_ok_def sizeof_buf_def)
  from output_independent_of_host [OF builds_ok blank_ok(2) this, of counting_src "[3, 600]"]
  show ?thesis by simp
qed

section \<open>Requests at the cursor (C1, C2)\<close>

text \<open>
  C1, evaluated. The instance is initialised from a hash context that yields zero bytes;
  its buffer starts with the bytes 76, b8. A first request of one byte returns 76 and moves
  the cursor to 1; the byte at the cursor is then b8, but the second request of one byte
  returns 76 again: the copy of line 384 starts at the beginning of the buffer, not at the
  cursor.
\<close>

theorem get_bytes_ignores_cursor:
  "\<exists>p0 p1 p2 src'.
      falcon_prng_init enclave_build blank zero_src 0 = Inr (PRNG_CHACHA20, p0, src')
      \<and> falcon_prng_get_bytes enclave_build p0 1 = Inr (p1, [0x76])
      \<and> ptr p1 = 1 \<and> buf_d p1 ! unat (ptr p1) = 0xb8
      \<and> falcon_prng_get_bytes enclave_build p1 1 = Inr (p2, [0x76])"
proof -
  from init_zero obtain p0 where
    p0: "falcon_prng_init enclave_build blank zero_src 0 = Inr (PRNG_CHACHA20, p0, zero_src)"
      "ptr p0 = 0" "length (buf_d p0) = sizeof_buf" "take 2 (buf_d p0) = [0x76, 0xb8]"
    by blast
  from take_2_parts [OF p0(4)] have t1: "take (Suc 0) (buf_d p0) = [0x76]"
    and b1: "buf_d p0 ! Suc 0 = 0xb8"
    by simp_all
  define p1 where "p1 = p0\<lparr>ptr := 1\<rparr>"
  have g1: "falcon_prng_get_bytes enclave_build p0 1 = Inr (p1, [0x76])"
    by (simp add: falcon_prng_get_bytes_def get_bytes_loop_within p0(2) sizeof_buf_def t1 p1_def)
  have g2: "falcon_prng_get_bytes enclave_build p1 1 = Inr (p1\<lparr>ptr := 2\<rparr>, [0x76])"
    by (simp add: falcon_prng_get_bytes_def get_bytes_loop_within sizeof_buf_def p1_def t1)
  show ?thesis
    using p0(1) g1 g2 b1 by (intro exI [of _ p0] exI [of _ p1] exI [of _ "p1\<lparr>ptr := 2\<rparr>"]
        exI [of _ zero_src]) (simp add: p1_def)
qed

text \<open>
  C2, evaluated. From the same seed, two requests of one byte deliver 76, 76 and one
  request of two bytes delivers 76, b8.
\<close>

theorem chunked_output_differs:
  "output_of_seed enclave_build blank zero_src [1, 1] = Inr [0x76, 0x76]
   \<and> output_of_seed enclave_build blank zero_src [2] = Inr [0x76, 0xb8]"
proof -
  from init_zero obtain p0 where
    p0: "falcon_prng_init enclave_build blank zero_src 0 = Inr (PRNG_CHACHA20, p0, zero_src)"
      "ptr p0 = 0" "length (buf_d p0) = sizeof_buf" "take 2 (buf_d p0) = [0x76, 0xb8]"
    by blast
  from take_2_parts [OF p0(4)] have t1: "take (Suc 0) (buf_d p0) = [0x76]"
    by simp
  have g1: "falcon_prng_get_bytes enclave_build p0 1 = Inr (p0\<lparr>ptr := 1\<rparr>, [0x76])"
    by (simp add: falcon_prng_get_bytes_def get_bytes_loop_within p0(2) sizeof_buf_def t1)
  have g2: "falcon_prng_get_bytes enclave_build (p0\<lparr>ptr := 1\<rparr>) 1 = Inr (p0\<lparr>ptr := 2\<rparr>, [0x76])"
    by (simp add: falcon_prng_get_bytes_def get_bytes_loop_within sizeof_buf_def t1)
  have g3: "falcon_prng_get_bytes enclave_build p0 2 = Inr (p0\<lparr>ptr := 2\<rparr>, [0x76, 0xb8])"
    by (simp add: falcon_prng_get_bytes_def get_bytes_loop_within p0(2,4) sizeof_buf_def)
  show ?thesis
    by (simp add: output_of_seed_def p0(1) g1 g2 g3)
qed
section \<open>Seeding (C6)\<close>

text \<open>
  C6, evaluated. In the enclave's build the only source is the enclave's generator; when it
  reports a failure for length 0, \<^verbatim>\<open>falcon_get_seed\<close> returns 0 for a request of 0 bytes: the
  test \<^verbatim>\<open>len == 0\<close> of lines 137-139 exists in \<^verbatim>\<open>urandom_get_seed\<close> only. With the device and
  the enclave's generator compiled in, a device whose reads hand out nothing without
  failing keeps the call from returning, although the generator would have served it. In a
  Windows build a request for \<open>2 ^ 32 + 2\<close> bytes asks the service for 2 bytes and returns 1
  with only these two written.
\<close>

theorem seed_contract_broken:
  "falcon_get_seed enclave_build broken_os [] 0 = Some (0, [])
   \<and> falcon_get_seed both_build stalled_os seed 4 = None
   \<and> falcon_get_seed win32_build win32_os seed 4294967298 = Some (1, [0x5a, 0x5a] @ drop 2 seed)"
proof (intro conjI)
  show "falcon_get_seed enclave_build broken_os [] 0 = Some (0, [])"
    by (simp add: falcon_get_seed_def sgx_get_seed_def enclave_build_def broken_os_def
        macro_true_def)
  show "falcon_get_seed both_build stalled_os seed 4 = None"
    by (simp add: falcon_get_seed_def urandom_get_seed_def both_build_def stalled_os_def
        urandom_read_loop_stalls)
  have "memcpy_at seed 0 (replicate 2 (0x5a :: byte)) = [0x5a, 0x5a] @ drop 2 seed"
    by (simp add: memcpy_at_def numeral_2_eq_2)
  then show "falcon_get_seed win32_build win32_os seed 4294967298
        = Some (1, [0x5a, 0x5a] @ drop 2 seed)"
    by (simp add: falcon_get_seed_def win32_get_seed_def win32_build_def win32_os_def)
qed

end
